theory Spec2Isabelle
  imports Main "HOL-Library.Word" "HOL-Library.Log_Nat"
begin

section \<open>Data model of lazy-cartesian-product.hpp (version 1.6, native build)\<close>

text \<open>
  The header has two builds. The one modelled here is the build without
  \<^verbatim>\<open>USE_BOOST\<close>: indices and sizes are \<^verbatim>\<open>unsigned long long\<close> (64 bits, arithmetic
  modulo \<open>2 ^ 64\<close>), the accumulator of \<^verbatim>\<open>precompute\<close> is \<^verbatim>\<open>unsigned long\<close>, and
  the sampler draws from \<^verbatim>\<open>uniform_int_distribution<>\<close>, whose value type is \<^verbatim>\<open>int\<close>.

  The width of \<^verbatim>\<open>unsigned long\<close> depends on the platform (64 bits under LP64, 32 bits
  under LLP64), so it is a type parameter \<open>'l\<close> of the functions that use it, passed
  as \<open>TYPE('l)\<close>. A conversion to a narrower integer type keeps the low bits
  (\<open>ucast\<close>); into \<^verbatim>\<open>int\<close> they are read as two's complement.
\<close>

type_synonym u64 = "64 word"
type_synonym int32 = "32 word"

text \<open>
  The four exception types of namespace \<^verbatim>\<open>lazycp::errors\<close>, \<^verbatim>\<open>std::out_of_range\<close>
  thrown by the sampler, and \<^verbatim>\<open>std::length_error\<close> thrown by \<^verbatim>\<open>vector::reserve\<close>.
  The last constructor is not an exception: it marks the
  executions that C++ leaves undefined (division by zero, \<^verbatim>\<open>operator[]\<close> out of
  bounds, a floating value converted to an integer type that cannot hold it, a
  distribution built with an upper bound below its lower bound).
\<close>

datatype error =
    index_error
  | empty_list_error
  | empty_answers_error
  | invalid_sample_size_error
  | out_of_range
  | length_error
  | undefined_behavior

record precomputed_stats =
  divs :: "u64 list"
  mods :: "u64 list"
  max_size :: u64

text \<open>
  The state of class \<^verbatim>\<open>RandomIterator\<close>: fields \<^verbatim>\<open>n\<close>, \<^verbatim>\<open>last_k\<close> and \<^verbatim>\<open>num_left\<close>
  (field \<^verbatim>\<open>n\<close> is called \<open>ri_n\<close> here). The engine \<^verbatim>\<open>gen\<close> is not part of the
  state: the value it makes the distribution return is an argument of each call.
\<close>

record RandomIterator =
  ri_n :: u64
  last_k :: u64
  num_left :: u64

section \<open>Space construction\<close>

text \<open>\<^verbatim>\<open>compute_max_size\<close>: the running product of the domain sizes, in 64 bits.\<close>

fun compute_max_size_loop :: "string list list \<Rightarrow> u64 \<Rightarrow> u64" where
  "compute_max_size_loop [] sz = sz"
| "compute_max_size_loop (it # rest) sz = compute_max_size_loop rest (sz * of_nat (length it))"

definition compute_max_size :: "string list list \<Rightarrow> u64" where
  "compute_max_size combinations = compute_max_size_loop combinations 1"

text \<open>
  The loop of \<^verbatim>\<open>precompute\<close>, \<^verbatim>\<open>for (long long i = size - 1; i >= 0; --i)\<close>. The
  second argument is \<open>i + 1\<close>; \<open>factor\<close> is the \<^verbatim>\<open>unsigned long\<close> accumulator.
  \<^verbatim>\<open>factor *= items\<close> multiplies in \<^verbatim>\<open>unsigned long long\<close> and stores the product
  back into the \<^verbatim>\<open>unsigned long\<close>.
\<close>

fun precompute_loop ::
  "string list list \<Rightarrow> nat \<Rightarrow> 'l::len word \<Rightarrow> precomputed_stats \<Rightarrow> precomputed_stats" where
  "precompute_loop combinations 0 factor ps = ps"
| "precompute_loop combinations (Suc i) factor ps =
     (let items = (of_nat (length (combinations ! i)) :: u64);
          ps1 = ps\<lparr>divs := (divs ps)[i := ucast factor]\<rparr>;
          ps2 = ps1\<lparr>mods := (mods ps1)[i := items]\<rparr>
      in precompute_loop combinations i (ucast ((ucast factor :: u64) * items) :: 'l word) ps2)"

definition precompute :: "'l::len itself \<Rightarrow> string list list \<Rightarrow> error + precomputed_stats" where
  "precompute ul combinations =
     (if length combinations = 0 then Inl empty_answers_error
      else
        let sz = length combinations;
            ps = \<lparr>divs = replicate sz 0, mods = replicate sz 0, max_size = 0\<rparr>;
            ps' = precompute_loop combinations sz (1 :: 'l word) ps
        in Inr (ps'\<lparr>max_size := compute_max_size combinations\<rparr>))"

section \<open>Decoding an index\<close>

text \<open>
  \<^verbatim>\<open>floor(n / ps.divs[i])\<close> takes an \<^verbatim>\<open>unsigned long long\<close> quotient. \<^verbatim>\<open>std::floor\<close> has
  no integer version: its integer overload converts the argument to \<^verbatim>\<open>double\<close>. The
  quotient is therefore rounded to a 53-bit significand (IEEE 754 binary64, round to
  nearest, ties to even); \<^verbatim>\<open>floor\<close> of the integral result is the result itself.
  \<open>double_of_ull x\<close> is the value of that \<^verbatim>\<open>double\<close>: \<open>s\<close> is the number of low bits
  that do not fit the significand, \<open>q\<close> the significand and \<open>r\<close> the bits cut off.
  Values up to \<open>2 ^ 53\<close> are kept as they are. The result can be \<open>2 ^ 64\<close>, which
  the cast back to \<^verbatim>\<open>unsigned long long\<close> cannot hold.
\<close>

definition double_of_ull :: "u64 \<Rightarrow> nat" where
  "double_of_ull x =
     (let v = unat x;
          s = floorlog 2 v - 53;
          q = v div 2 ^ s;
          r = v mod 2 ^ s
      in if 2 * r < 2 ^ s \<or> (2 * r = 2 ^ s \<and> even q) then q * 2 ^ s else (q + 1) * 2 ^ s)"

text \<open>
  The index expression \<^verbatim>\<open>(unsigned long long)(floor(n / ps.divs[i])) % ps.mods[i]\<close>
  of the private \<^verbatim>\<open>entry_at\<close>.
\<close>

definition digit_of :: "u64 \<Rightarrow> precomputed_stats \<Rightarrow> nat \<Rightarrow> error + u64" where
  "digit_of n ps i =
     (if length (divs ps) \<le> i \<or> length (mods ps) \<le> i then Inl undefined_behavior
      else if divs ps ! i = 0 then Inl undefined_behavior
      else
        let f = double_of_ull (n div divs ps ! i)
        in if 2 ^ 64 \<le> f then Inl undefined_behavior
           else if mods ps ! i = 0 then Inl undefined_behavior
           else Inr ((of_nat f :: u64) mod mods ps ! i))"

text \<open>
  The loop of the private \<^verbatim>\<open>entry_at\<close>; \<open>combination\<close> is the vector being
  filled. \<^verbatim>\<open>operator[]\<close> does not check its index.
\<close>

function entry_at_loop ::
  "string list list \<Rightarrow> u64 \<Rightarrow> precomputed_stats \<Rightarrow> nat \<Rightarrow> string list \<Rightarrow> error + string list" where
  "entry_at_loop combinations n ps i combination =
     (if i < length combinations then
        (case digit_of n ps i of
           Inl e \<Rightarrow> Inl e
         | Inr d \<Rightarrow>
             if unat d < length (combinations ! i)
             then entry_at_loop combinations n ps (i + 1)
                    (combination[i := combinations ! i ! unat d])
             else Inl undefined_behavior)
      else Inr combination)"
  by pat_completeness auto
termination
  by (relation "measure (\<lambda>(combinations, n, ps, i, combination). length combinations - i)") auto

text \<open>The private overload \<^verbatim>\<open>entry_at(combinations, n, ps)\<close>.\<close>

definition entry_at_stats ::
  "string list list \<Rightarrow> u64 \<Rightarrow> precomputed_stats \<Rightarrow> error + string list" where
  "entry_at_stats combinations n ps =
     entry_at_loop combinations n ps 0 (replicate (length combinations) [])"

text \<open>The public overload \<^verbatim>\<open>entry_at(combinations, index)\<close>.\<close>

definition entry_at :: "'l::len itself \<Rightarrow> string list list \<Rightarrow> u64 \<Rightarrow> error + string list" where
  "entry_at ul combinations index =
     (case precompute ul combinations of
        Inl e \<Rightarrow> Inl e
      | Inr pc \<Rightarrow>
          if index < 0 \<or> index \<ge> max_size pc then Inl index_error
          else entry_at_stats combinations index pc)"

section \<open>The sampler\<close>

text \<open>The constructor \<^verbatim>\<open>RandomIterator(amount, max)\<close>; it checks nothing.\<close>

definition new_RandomIterator :: "u64 \<Rightarrow> u64 \<Rightarrow> RandomIterator" where
  "new_RandomIterator amount mx = \<lparr>ri_n = mx, last_k = 0, num_left = amount\<rparr>"

definition has_next :: "RandomIterator \<Rightarrow> bool" where
  "has_next it \<longleftrightarrow> num_left it > 0"

text \<open>
  \<^verbatim>\<open>uniform_int_distribution<> rnd(0, range_size)\<close> is a distribution over \<^verbatim>\<open>int\<close>: its
  upper bound is \<open>range_size\<close> narrowed to 32 bits, and it returns an \<^verbatim>\<open>int\<close> between
  0 and that bound. \<open>rnd_returns range_size g\<close> says that \<open>g\<close> is such a value.
\<close>

definition rnd_returns :: "u64 \<Rightarrow> int32 \<Rightarrow> bool" where
  "rnd_returns range_size g \<longleftrightarrow> 0 \<le>s g \<and> g \<le>s (ucast range_size :: int32)"

text \<open>
  \<^verbatim>\<open>RandomIterator::next\<close>, with \<open>g\<close> the value of \<^verbatim>\<open>rnd(gen)\<close>. The result is the
  returned value and the updated iterator. When the narrowed upper bound is
  negative, the distribution is built with an upper bound below its lower bound 0,
  which its contract excludes. In \<^verbatim>\<open>rnd(gen) + last_k + 1\<close> the \<^verbatim>\<open>int\<close> is converted to
  \<^verbatim>\<open>unsigned long long\<close> (\<open>scast\<close>) and the sum wraps around at \<open>2 ^ 64\<close>.
\<close>

definition RandomIterator_next :: "RandomIterator \<Rightarrow> int32 \<Rightarrow> error + (u64 \<times> RandomIterator)" where
  "RandomIterator_next it g =
     (if num_left it > 0 then
        (let range_size = (ri_n it - last_k it) div num_left it
         in if (ucast range_size :: int32) <s 0 then Inl undefined_behavior
            else
              let r = scast g + last_k it + 1
              in Inr (r, it\<lparr>last_k := r, num_left := num_left it - 1\<rparr>))
      else Inl out_of_range)"

text \<open>The width of the range the next call draws from.\<close>

definition range_size_of :: "RandomIterator \<Rightarrow> u64" where
  "range_size_of it = (ri_n it - last_k it) div num_left it"

text \<open>
  Successive calls of \<^verbatim>\<open>next()\<close> on one iterator, one call for each element of
  \<open>gs\<close> (the values the distribution returns, in order): the values returned and
  the iterator afterwards, or the first failure.
\<close>

fun next_calls :: "RandomIterator \<Rightarrow> int32 list \<Rightarrow> error + (u64 list \<times> RandomIterator)" where
  "next_calls it [] = Inr ([], it)"
| "next_calls it (g # gs) =
     (case RandomIterator_next it g of
        Inl e \<Rightarrow> Inl e
      | Inr (r, it') \<Rightarrow>
          (case next_calls it' gs of
             Inl e \<Rightarrow> Inl e
           | Inr (rs, it'') \<Rightarrow> Inr (r # rs, it'')))"

text \<open>
  \<open>draws_ok it gs\<close>: every element of \<open>gs\<close> is a value the distribution of the
  corresponding call can return.
\<close>

fun draws_ok :: "RandomIterator \<Rightarrow> int32 list \<Rightarrow> bool" where
  "draws_ok it [] = True"
| "draws_ok it (g # gs) =
     (rnd_returns (range_size_of it) g \<and>
      (case RandomIterator_next it g of Inl e \<Rightarrow> False | Inr (r, it') \<Rightarrow> draws_ok it' gs))"

text \<open>
  The invariant of the sampler: the values still to be returned fit between the
  last value and \<open>n + 1\<close>, and \<open>n + 1\<close> does not wrap around.
\<close>

definition sampler_inv :: "RandomIterator \<Rightarrow> bool" where
  "sampler_inv it \<longleftrightarrow>
     unat (last_k it) + unat (num_left it) \<le> unat (ri_n it) + 1 \<and> unat (ri_n it) + 1 < 2 ^ 64"

section \<open>Sampling combinations\<close>

text \<open>
  The loop \<^verbatim>\<open>while (iter.has_next()) subset.push_back(entry_at(combinations, iter.next(), ps))\<close>.
  \<open>draws j\<close> is the value the distribution returns in the \<open>j\<close>-th call of \<^verbatim>\<open>next\<close>.
\<close>

function sample_loop ::
  "string list list \<Rightarrow> precomputed_stats \<Rightarrow> RandomIterator \<Rightarrow> (nat \<Rightarrow> int32) \<Rightarrow> nat \<Rightarrow>
   string list list \<Rightarrow> error + string list list" where
  "sample_loop combinations ps iter draws j subset_v =
     (if has_next iter then
        (case RandomIterator_next iter (draws j) of
           Inl e \<Rightarrow> Inl e
         | Inr (r, iter') \<Rightarrow>
             (case entry_at_stats combinations r ps of
                Inl e \<Rightarrow> Inl e
              | Inr c \<Rightarrow> sample_loop combinations ps iter' draws (j + 1) (subset_v @ [c])))
      else Inr subset_v)"
  by pat_completeness auto
termination
proof (relation "measure (\<lambda>(combinations, ps, iter, draws, j, subset_v). unat (num_left iter))")
  show "wf (measure (\<lambda>(combinations, ps, iter, draws, j, subset_v). unat (num_left iter)))"
    by simp
next
  fix combinations :: "string list list" and ps :: precomputed_stats and iter :: RandomIterator
    and draws :: "nat \<Rightarrow> int32" and j :: nat and subset_v :: "string list list"
    and x :: "u64 \<times> RandomIterator" and r :: u64 and iter' :: RandomIterator and c :: "string list"
  assume "has_next iter" and nx: "RandomIterator_next iter (draws j) = Inr x"
    and x: "(r, iter') = x"
  from nx x have pos: "num_left iter \<noteq> 0" and eq: "num_left iter' = num_left iter - 1"
    by (auto simp: RandomIterator_next_def Let_def word_greater_zero_iff split: if_splits)
  from pos have "unat (num_left iter - 1) < unat (num_left iter)"
    by (simp add: unat_minus_one unat_gt_0 word_greater_zero_iff)
  with eq show "((combinations, ps, iter', draws, j + 1, subset_v @ [c]),
                 (combinations, ps, iter, draws, j, subset_v))
                \<in> measure (\<lambda>(combinations, ps, iter, draws, j, subset_v). unat (num_left iter))"
    by simp
qed

text \<open>The loop \<^verbatim>\<open>for (unsigned long long i = 0; i < sample_size; ++i)\<close>.\<close>

function full_loop ::
  "string list list \<Rightarrow> precomputed_stats \<Rightarrow> u64 \<Rightarrow> u64 \<Rightarrow> string list list \<Rightarrow>
   error + string list list" where
  "full_loop combinations ps i sample_size subset_v =
     (if i < sample_size then
        (case entry_at_stats combinations i ps of
           Inl e \<Rightarrow> Inl e
         | Inr c \<Rightarrow> full_loop combinations ps (i + 1) sample_size (subset_v @ [c]))
      else Inr subset_v)"
  by pat_completeness auto
termination
proof (relation "measure (\<lambda>(combinations, ps, i, sample_size, subset_v). unat sample_size - unat i)")
  show "wf (measure (\<lambda>(combinations, ps, i, sample_size, subset_v). unat sample_size - unat i))"
    by simp
next
  fix combinations :: "string list list" and ps :: precomputed_stats and i sample_size :: u64
    and subset_v :: "string list list" and c :: "string list"
  assume lt: "i < sample_size"
  then have "unat i < unat sample_size"
    by (simp add: word_less_nat_alt)
  moreover from lt have "unat (i + 1) = unat i + 1"
    by unat_arith
  ultimately show "((combinations, ps, i + 1, sample_size, subset_v @ [c]),
                    (combinations, ps, i, sample_size, subset_v))
                   \<in> measure (\<lambda>(combinations, ps, i, sample_size, subset_v). unat sample_size - unat i)"
    by simp
qed

text \<open>
  \<^verbatim>\<open>subset.reserve(sample_size)\<close> throws \<^verbatim>\<open>std::length_error\<close> when its argument exceeds
  \<^verbatim>\<open>max_size()\<close> of the vector, a constant of the library: for a
  \<^verbatim>\<open>vector<vector<string>>\<close> of libstdc++ on a 64-bit platform it is
  \<^verbatim>\<open>PTRDIFF_MAX / sizeof(vector<string>)\<close>, with elements of 24 bytes. Below that
  limit the call only allocates; a failure of the allocation itself is not part of
  the model.
\<close>

definition vector_max_size :: nat where
  "vector_max_size = (2 ^ 63 - 1) div 24"

text \<open>\<^verbatim>\<open>generate_samples\<close>.\<close>

definition generate_samples ::
  "'l::len itself \<Rightarrow> string list list \<Rightarrow> u64 \<Rightarrow> (nat \<Rightarrow> int32) \<Rightarrow> error + string list list" where
  "generate_samples ul combinations sample_size draws =
     (if length combinations = 0 then Inl empty_list_error
      else
        (case precompute ul combinations of
           Inl e \<Rightarrow> Inl e
         | Inr ps \<Rightarrow>
             if sample_size \<noteq> max_size ps
             then
               (if vector_max_size < unat sample_size then Inl length_error
                else sample_loop combinations ps
                       (new_RandomIterator sample_size (max_size ps)) draws 0 [])
             else
               (if vector_max_size < unat sample_size then Inl length_error
                else full_loop combinations ps 0 sample_size [])))"

text \<open>
  A sequence of distribution results given as a list (0 after its end), for the
  argument \<open>draws\<close> of \<open>generate_samples\<close>.
\<close>

definition draws_of :: "int32 list \<Rightarrow> nat \<Rightarrow> int32" where
  "draws_of gs j = (if j < length gs then gs ! j else 0)"

section \<open>The space and the decoding on unbounded naturals\<close>

text \<open>
  The quantities of the specification, on natural numbers without any width: the
  place value of position \<open>i\<close> is the product of the sizes of the domains to its
  right, the total size is the product of all sizes, and the digit of an index at
  position \<open>i\<close> is \<open>(n div place_value) mod size\<close>. The code is compared with
  these below.
\<close>

definition place_value :: "string list list \<Rightarrow> nat \<Rightarrow> nat" where
  "place_value cs i = prod_list (map length (drop (Suc i) cs))"

definition total_size :: "string list list \<Rightarrow> nat" where
  "total_size cs = prod_list (map length cs)"

definition digit :: "string list list \<Rightarrow> nat \<Rightarrow> nat \<Rightarrow> nat" where
  "digit cs n i = (n div place_value cs i) mod length (cs ! i)"

definition decode :: "string list list \<Rightarrow> nat \<Rightarrow> string list" where
  "decode cs n = map (\<lambda>i. cs ! i ! digit cs n i) [0..<length cs]"

definition space_of :: "string list list \<Rightarrow> precomputed_stats" where
  "space_of cs =
     \<lparr>divs = map (\<lambda>i. of_nat (place_value cs i)) [0..<length cs],
      mods = map (\<lambda>d. of_nat (length d)) cs,
      max_size = of_nat (total_size cs)\<rparr>"

text \<open>
  \<open>no_overflow\<close>: no value that \<^verbatim>\<open>precompute\<close> stores exceeds its type. \<^verbatim>\<open>unsigned long\<close>
  is at most as wide as \<^verbatim>\<open>unsigned long long\<close>, every domain size fits 64 bits,
  every place value fits \<^verbatim>\<open>unsigned long\<close> and the total size fits 64 bits.
\<close>

definition no_overflow :: "'l::len itself \<Rightarrow> string list list \<Rightarrow> bool" where
  "no_overflow ul cs \<longleftrightarrow>
     LENGTH('l) \<le> 64 \<and>
     (\<forall>d\<in>set cs. length d < 2 ^ 64) \<and>
     (\<forall>i<length cs. place_value cs i < 2 ^ LENGTH('l)) \<and>
     total_size cs < 2 ^ 64"

text \<open>
  \<open>valid_space\<close>: the list and every domain are non-empty, and the product of the
  domain sizes fits \<^verbatim>\<open>unsigned long\<close>.
\<close>

definition valid_space :: "'l::len itself \<Rightarrow> string list list \<Rightarrow> bool" where
  "valid_space ul cs \<longleftrightarrow>
     LENGTH('l) \<le> 64 \<and> cs \<noteq> [] \<and> (\<forall>d\<in>set cs. d \<noteq> []) \<and> total_size cs < 2 ^ LENGTH('l)"

section \<open>Space construction: what the loops compute\<close>

lemma ucast_of_nat_down:
  assumes "LENGTH('l::len) \<le> 64"
  shows "(ucast (of_nat m :: u64) :: 'l word) = of_nat m"
proof -
  have "take_bit LENGTH('l) (take_bit 64 m) = take_bit LENGTH('l) m"
    using assms by (simp add: min_def)
  then have "(of_nat (take_bit 64 m) :: 'l word) = of_nat m"
    by (simp add: word_of_nat_eq_iff)
  moreover have "(ucast (of_nat m :: u64) :: 'l word) = of_nat (unat (of_nat m :: u64))"
    by simp
  ultimately show ?thesis
    by (simp add: unsigned_of_nat)
qed

lemma ucast_mult_down:
  fixes factor :: "'l::len word"
  assumes "LENGTH('l) \<le> 64"
  shows "(ucast ((ucast factor :: u64) * of_nat b) :: 'l word) = factor * of_nat b"
proof -
  have "(ucast factor :: u64) * of_nat b = of_nat (unat factor * b)"
    by simp
  then have "(ucast ((ucast factor :: u64) * of_nat b) :: 'l word) = of_nat (unat factor * b)"
    using ucast_of_nat_down [OF assms, of "unat factor * b"] by simp
  then show ?thesis
    by simp
qed

lemma compute_max_size_loop_eq:
  "compute_max_size_loop cs sz = sz * of_nat (prod_list (map length cs))"
  by (induction cs arbitrary: sz) (simp_all add: mult.assoc)

lemma compute_max_size_eq:
  "compute_max_size cs = of_nat (total_size cs)"
  by (simp add: compute_max_size_def compute_max_size_loop_eq total_size_def)

lemma precompute_loop_lengths:
  "length (divs (precompute_loop cs k factor ps)) = length (divs ps) \<and>
   length (mods (precompute_loop cs k factor ps)) = length (mods ps) \<and>
   max_size (precompute_loop cs k factor ps) = max_size ps"
  by (induction cs k factor ps rule: precompute_loop.induct) (simp_all add: Let_def)

lemma precompute_loop_nth:
  fixes factor :: "'l::len word"
  assumes "LENGTH('l) \<le> 64"
    and "k \<le> length cs"
    and "length (divs ps) = length cs"
    and "length (mods ps) = length cs"
    and "factor = of_nat (prod_list (map length (drop k cs)))"
    and "i < length cs"
  shows "divs (precompute_loop cs k factor ps) ! i =
           (if i < k then ucast (of_nat (place_value cs i) :: 'l word) else divs ps ! i) \<and>
         mods (precompute_loop cs k factor ps) ! i =
           (if i < k then of_nat (length (cs ! i)) else mods ps ! i)"
  using assms
proof (induction cs k factor ps rule: precompute_loop.induct)
  case (1 combinations factor ps)
  then show ?case by simp
next
  case (2 combinations j factor ps)
  let ?items = "of_nat (length (combinations ! j)) :: u64"
  let ?ps2 = "ps\<lparr>divs := (divs ps)[j := ucast factor], mods := (mods ps)[j := ?items]\<rparr>"
  let ?factor' = "ucast ((ucast factor :: u64) * ?items) :: 'l word"
  from "2.prems" have j: "j < length combinations" by simp
  have drop: "drop j combinations = combinations ! j # drop (Suc j) combinations"
    using j by (simp add: Cons_nth_drop_Suc)
  have "?factor' = factor * of_nat (length (combinations ! j))"
    using "2.prems"(1) by (rule ucast_mult_down)
  also have "\<dots> = of_nat (prod_list (map length (drop (Suc j) combinations)) * length (combinations ! j))"
    using "2.prems"(5) by simp
  also have "\<dots> = of_nat (prod_list (map length (drop j combinations)))"
    by (simp add: drop mult.commute)
  finally have f': "?factor' = of_nat (prod_list (map length (drop j combinations)))" .
  have step: "precompute_loop combinations (Suc j) factor ps = precompute_loop combinations j ?factor' ?ps2"
    by (simp add: Let_def)
  have IH: "divs (precompute_loop combinations j ?factor' ?ps2) ! i =
           (if i < j then ucast (of_nat (place_value combinations i) :: 'l word) else divs ?ps2 ! i) \<and>
         mods (precompute_loop combinations j ?factor' ?ps2) ! i =
           (if i < j then of_nat (length (combinations ! i)) else mods ?ps2 ! i)"
    using "2.IH" [OF refl refl refl "2.prems"(1)] j "2.prems"(3,4,6) f'
    by simp
  have fj: "factor = of_nat (place_value combinations j)"
    using "2.prems"(5) by (simp add: place_value_def)
  show ?case
    unfolding step using IH "2.prems"(3,4,6) j fj
    by (auto simp: nth_list_update less_Suc_eq)
qed

lemma precompute_eq:
  assumes "LENGTH('l::len) \<le> 64" and "cs \<noteq> []"
  shows "precompute TYPE('l) cs =
    Inr \<lparr>divs = map (\<lambda>i. ucast (of_nat (place_value cs i) :: 'l word)) [0..<length cs],
         mods = map (\<lambda>d. of_nat (length d)) cs,
         max_size = of_nat (total_size cs)\<rparr>"
proof -
  let ?init = "\<lparr>divs = replicate (length cs) 0, mods = replicate (length cs) 0, max_size = 0\<rparr>"
  let ?ps = "precompute_loop cs (length cs) (1 :: 'l word) ?init"
  have len: "length (divs ?ps) = length cs" "length (mods ?ps) = length cs"
    using precompute_loop_lengths [of cs "length cs" "1 :: 'l word" ?init] by simp_all
  have nth: "divs ?ps ! i = ucast (of_nat (place_value cs i) :: 'l word) \<and>
             mods ?ps ! i = of_nat (length (cs ! i))" if "i < length cs" for i
    using precompute_loop_nth [of "length cs" cs ?init "1 :: 'l word" i] assms(1) that by simp
  have d: "divs ?ps = map (\<lambda>i. ucast (of_nat (place_value cs i) :: 'l word)) [0..<length cs]"
    by (rule nth_equalityI) (simp_all add: len nth)
  have m: "mods ?ps = map (\<lambda>d. of_nat (length d)) cs"
    by (rule nth_equalityI) (simp_all add: len nth)
  have "precompute TYPE('l) cs = Inr (?ps\<lparr>max_size := of_nat (total_size cs)\<rparr>)"
    using assms(2) by (simp add: precompute_def Let_def compute_max_size_eq)
  also have "?ps\<lparr>max_size := of_nat (total_size cs)\<rparr> =
     \<lparr>divs = divs ?ps, mods = mods ?ps, max_size = of_nat (total_size cs)\<rparr>"
    by simp
  finally show ?thesis
    by (simp only: d m)
qed

lemma precompute_Inr:
  assumes "cs \<noteq> []"
  shows "\<exists>ps. precompute TYPE('l::len) cs = Inr ps \<and> max_size ps = compute_max_size cs"
  using assms by (simp add: precompute_def Let_def)

section \<open>Mixed-radix arithmetic on naturals\<close>

lemma place_value_Cons_0: "place_value (d # cs) 0 = total_size cs"
  by (simp add: place_value_def total_size_def)

lemma place_value_Cons_Suc: "place_value (d # cs) (Suc i) = place_value cs i"
  by (simp add: place_value_def)

lemma total_size_Cons: "total_size (d # cs) = length d * total_size cs"
  by (simp add: total_size_def)

lemma total_size_split:
  assumes "i < length cs"
  shows "total_size cs = total_size (take i cs) * (length (cs ! i) * place_value cs i)"
proof -
  have "cs = take i cs @ cs ! i # drop (Suc i) cs"
    using assms by (simp add: id_take_nth_drop)
  then have "total_size cs = prod_list (map length (take i cs @ cs ! i # drop (Suc i) cs))"
    by (simp add: total_size_def)
  then show ?thesis
    by (simp add: total_size_def place_value_def)
qed

lemma total_size_pos: "\<forall>d\<in>set cs. d \<noteq> [] \<Longrightarrow> 0 < total_size cs"
  by (induction cs) (simp_all add: total_size_def)

lemma total_size_empty_domain:
  assumes "[] \<in> set cs"
  shows "total_size cs = 0"
proof -
  from assms have "0 \<in> set (map length cs)"
    by force
  then show ?thesis
    by (simp add: total_size_def prod_list_zero_iff)
qed

lemma place_value_pos:
  assumes "\<forall>d\<in>set cs. d \<noteq> []"
  shows "0 < place_value cs i"
proof -
  have "\<forall>d\<in>set (drop (Suc i) cs). d \<noteq> []"
    using assms by (auto dest: in_set_dropD)
  then have "0 < total_size (drop (Suc i) cs)"
    by (rule total_size_pos)
  then show ?thesis
    by (simp add: place_value_def total_size_def)
qed

lemma place_value_le_total:
  assumes "\<forall>d\<in>set cs. d \<noteq> []" and "i < length cs"
  shows "place_value cs i \<le> total_size cs" and "length (cs ! i) \<le> total_size cs"
proof -
  have "\<forall>d\<in>set (take i cs). d \<noteq> []"
    using assms(1) by (auto dest: in_set_takeD)
  then have t: "0 < total_size (take i cs)"
    by (rule total_size_pos)
  have "cs ! i \<in> set cs"
    using assms(2) by simp
  with assms(1) have l: "0 < length (cs ! i)"
    by auto
  have p: "0 < place_value cs i"
    using assms(1) by (rule place_value_pos)
  have eq: "total_size cs = total_size (take i cs) * (length (cs ! i) * place_value cs i)"
    using assms(2) by (rule total_size_split)
  have "place_value cs i \<le> length (cs ! i) * place_value cs i"
    using l by (simp add: Suc_le_eq)
  also have "\<dots> \<le> total_size (take i cs) * (length (cs ! i) * place_value cs i)"
    using t by simp
  finally show "place_value cs i \<le> total_size cs"
    by (simp add: eq)
  have "length (cs ! i) \<le> length (cs ! i) * place_value cs i"
    using p by simp
  also have "\<dots> \<le> total_size (take i cs) * (length (cs ! i) * place_value cs i)"
    using t by simp
  finally show "length (cs ! i) \<le> total_size cs"
    by (simp add: eq)
qed

lemma div_mod_periodic:
  fixes n a b t :: nat
  assumes "a * b dvd t"
  shows "(n mod t) div a mod b = n div a mod b"
proof -
  have "x div a mod b = (x mod (a * b)) div a" for x :: nat
  proof (cases "a = 0")
    case True
    then show ?thesis by simp
  next
    case False
    have "x mod (a * b) = a * (x div a mod b) + x mod a"
      by (rule mod_mult2_eq)
    with False show ?thesis by simp
  qed
  then have "(n mod t) div a mod b = ((n mod t) mod (a * b)) div a"
    and "n div a mod b = (n mod (a * b)) div a"
    by blast+
  moreover have "(n mod t) mod (a * b) = n mod (a * b)"
    using assms by (rule mod_mod_cancel)
  ultimately show ?thesis by simp
qed

lemma digit_periodic:
  assumes "i < length cs"
  shows "digit cs (n mod total_size cs) i = digit cs n i"
proof -
  have "place_value cs i * length (cs ! i) dvd total_size cs"
    using total_size_split [OF assms] by (simp add: mult.commute)
  then show ?thesis
    unfolding digit_def by (rule div_mod_periodic)
qed

lemma decode_periodic: "decode cs (n mod total_size cs) = decode cs n"
  by (simp add: decode_def digit_periodic)

lemma decode_Cons:
  "decode (d # cs) n = d ! ((n div total_size cs) mod length d) # decode cs n"
proof -
  have "[0..<length (d # cs)] = 0 # map Suc [0..<length cs]"
    by (simp add: upt_conv_Cons map_Suc_upt del: upt_Suc)
  then show ?thesis
    by (simp add: decode_def digit_def place_value_Cons_0 place_value_Cons_Suc comp_def)
qed

lemma nth_concat_uniform:
  assumes "\<forall>x\<in>set xs. length (f x) = k" and "n < length xs * k"
  shows "concat (map f xs) ! n = f (xs ! (n div k)) ! (n mod k)"
  using assms
proof (induction xs arbitrary: n)
  case Nil
  then show ?case by simp
next
  case (Cons x xs)
  from Cons.prems have k: "0 < k" by (cases k) auto
  show ?case
  proof (cases "n < k")
    case True
    with Cons.prems show ?thesis by (simp add: nth_append)
  next
    case False
    then have ge: "k \<le> n" by simp
    have "n - k < length xs * k"
      using Cons.prems(2) ge by simp
    with Cons have IH: "concat (map f xs) ! (n - k) = f (xs ! ((n - k) div k)) ! ((n - k) mod k)"
      by simp
    have d: "n div k = Suc ((n - k) div k)"
      using ge k by (simp add: le_div_geq)
    have m: "n mod k = (n - k) mod k"
      using ge by (simp add: le_mod_geq)
    show ?thesis
      using Cons.prems(1) False IH by (simp add: nth_append d m)
  qed
qed

lemma length_product_lists_total: "length (product_lists cs) = total_size cs"
  by (induction cs) (simp_all add: total_size_def length_concat comp_def sum_list_triv)

lemma product_lists_nth:
  assumes "n < total_size cs"
  shows "product_lists cs ! n = decode cs n"
  using assms
proof (induction cs arbitrary: n)
  case Nil
  then show ?case by (simp add: decode_def total_size_def)
next
  case (Cons d cs)
  let ?t = "total_size cs"
  from Cons.prems have n: "n < length d * ?t"
    by (simp add: total_size_Cons)
  then have t: "0 < ?t" by (cases ?t) auto
  have q: "n div ?t < length d"
    using n t by (simp add: less_mult_imp_div_less mult.commute)
  have "product_lists (d # cs) ! n = concat (map (\<lambda>x. map (Cons x) (product_lists cs)) d) ! n"
    by simp
  also have "\<dots> = map (Cons (d ! (n div ?t))) (product_lists cs) ! (n mod ?t)"
    by (rule nth_concat_uniform) (simp_all add: length_product_lists_total n)
  also have "\<dots> = d ! (n div ?t) # product_lists cs ! (n mod ?t)"
    using t by (simp add: length_product_lists_total)
  also have "product_lists cs ! (n mod ?t) = decode cs (n mod ?t)"
    using t by (simp add: Cons.IH)
  also have "decode cs (n mod ?t) = decode cs n"
    by (rule decode_periodic)
  finally show ?case
    using q by (simp add: decode_Cons)
qed

text \<open>
  \<open>product_lists\<close> is the Cartesian product of a list of lists, as the list of
  all choices of one element from each list, the first position varying slowest.
\<close>

lemma product_lists_decode:
  "product_lists cs = map (decode cs) [0..<total_size cs]"
  by (rule nth_equalityI) (simp_all add: length_product_lists_total product_lists_nth)

section \<open>The code on spaces that fit\<close>

lemma double_of_ull_exact:
  assumes "unat x \<le> 2 ^ 53"
  shows "double_of_ull x = unat x"
proof (cases "unat x < 2 ^ 53")
  case True
  then have "floorlog 2 (unat x) \<le> 53"
    by (simp add: floorlog_le_iff)
  then show ?thesis
    by (simp add: double_of_ull_def)
next
  case False
  with assms have v: "unat x = 1 * 2 ^ 53" by simp
  have "floorlog 2 (1 * 2 ^ 53 :: nat) = floorlog 2 1 + 53"
    by (rule floorlog_power) simp_all
  also have "floorlog 2 (1::nat) = 1"
    by (simp add: compute_floorlog)
  finally have "floorlog 2 (unat x) - 53 = 1"
    using v by simp
  then show ?thesis
    using v by (simp add: double_of_ull_def)
qed

lemma u64_of_nat_inverse: "k < 2 ^ 64 \<Longrightarrow> unat (of_nat k :: u64) = k"
  by (simp add: unat_of_nat)

lemma valid_space_bounds:
  assumes "valid_space TYPE('l::len) cs" and "i < length cs"
  shows "0 < place_value cs i" and "place_value cs i < 2 ^ LENGTH('l)"
    and "place_value cs i < 2 ^ 64"
    and "0 < length (cs ! i)" and "length (cs ! i) < 2 ^ 64" and "total_size cs < 2 ^ 64"
proof -
  from assms(1) have ne: "\<forall>d\<in>set cs. d \<noteq> []" and l: "LENGTH('l) \<le> 64"
    and t: "total_size cs < 2 ^ LENGTH('l)"
    by (simp_all add: valid_space_def)
  have "(2::nat) ^ LENGTH('l) \<le> 2 ^ 64"
    using l by (rule power_increasing) simp
  with t show t64: "total_size cs < 2 ^ 64" by simp
  show "0 < place_value cs i"
    using ne by (rule place_value_pos)
  have "place_value cs i \<le> total_size cs"
    using ne assms(2) by (rule place_value_le_total)
  with t show "place_value cs i < 2 ^ LENGTH('l)" by simp
  with \<open>2 ^ LENGTH('l) \<le> 2 ^ 64\<close> show "place_value cs i < 2 ^ 64" by simp
  have "cs ! i \<in> set cs" using assms(2) by simp
  with ne show "0 < length (cs ! i)" by auto
  have "length (cs ! i) \<le> total_size cs"
    using ne assms(2) by (rule place_value_le_total)
  with t64 show "length (cs ! i) < 2 ^ 64" by simp
qed

lemma precompute_no_overflow:
  assumes "cs \<noteq> []" and "no_overflow TYPE('l::len) cs"
  shows "precompute TYPE('l) cs = Inr (space_of cs)"
proof -
  from assms(2) have l: "LENGTH('l) \<le> 64"
    and pv: "\<forall>i<length cs. place_value cs i < 2 ^ LENGTH('l)"
    by (simp_all add: no_overflow_def)
  have "(ucast (of_nat (place_value cs i) :: 'l word) :: u64) = of_nat (place_value cs i)"
    if "i < length cs" for i
  proof -
    have "place_value cs i < 2 ^ LENGTH('l)"
      using pv that by simp
    then have "unat (of_nat (place_value cs i) :: 'l word) = place_value cs i"
      by (simp add: unat_of_nat)
    moreover have "(ucast (of_nat (place_value cs i) :: 'l word) :: u64)
        = of_nat (unat (of_nat (place_value cs i) :: 'l word))"
      by simp
    ultimately show ?thesis by simp
  qed
  then have "map (\<lambda>i. ucast (of_nat (place_value cs i) :: 'l word) :: u64) [0..<length cs]
      = map (\<lambda>i. of_nat (place_value cs i)) [0..<length cs]"
    by simp
  with precompute_eq [OF l assms(1)] show ?thesis
    by (simp add: space_of_def)
qed

lemma valid_space_no_overflow:
  assumes "valid_space TYPE('l::len) cs"
  shows "no_overflow TYPE('l) cs"
proof -
  from assms have l: "LENGTH('l) \<le> 64"
    by (simp add: valid_space_def)
  have "length d < 2 ^ 64" if "d \<in> set cs" for d
  proof -
    from that obtain i where "i < length cs" and "d = cs ! i"
      by (auto simp: in_set_conv_nth)
    with valid_space_bounds(5) [OF assms] show ?thesis by simp
  qed
  moreover have "place_value cs i < 2 ^ LENGTH('l)" if "i < length cs" for i
    using assms that by (rule valid_space_bounds)
  moreover have "total_size cs < 2 ^ 64"
  proof -
    from assms have "0 < length cs" by (simp add: valid_space_def)
    with assms show ?thesis by (rule valid_space_bounds)
  qed
  ultimately show ?thesis
    using l by (simp add: no_overflow_def)
qed

lemma precompute_valid:
  assumes "valid_space TYPE('l::len) cs"
  shows "precompute TYPE('l) cs = Inr (space_of cs)"
proof -
  from assms have "cs \<noteq> []" by (simp add: valid_space_def)
  moreover from assms have "no_overflow TYPE('l) cs" by (rule valid_space_no_overflow)
  ultimately show ?thesis by (rule precompute_no_overflow)
qed

lemma valid_max_size:
  assumes "valid_space TYPE('l::len) cs"
  shows "compute_max_size cs = of_nat (total_size cs)" and "unat (compute_max_size cs) = total_size cs"
    and "0 < total_size cs" and "total_size cs < 2 ^ 64"
proof -
  show eq: "compute_max_size cs = of_nat (total_size cs)"
    by (rule compute_max_size_eq)
  from assms have "0 < length cs" by (simp add: valid_space_def)
  with assms show "total_size cs < 2 ^ 64" by (rule valid_space_bounds)
  then show "unat (compute_max_size cs) = total_size cs"
    unfolding eq by (rule u64_of_nat_inverse)
  from assms show "0 < total_size cs"
    by (simp add: valid_space_def total_size_pos)
qed

lemma digit_of_space:
  assumes v: "valid_space TYPE('l::len) cs" and i: "i < length cs"
    and f: "double_of_ull (n div of_nat (place_value cs i)) < 2 ^ 64"
  shows "digit_of n (space_of cs) i =
    Inr (of_nat (double_of_ull (n div of_nat (place_value cs i))) mod of_nat (length (cs ! i)))"
proof -
  let ?p = "place_value cs i" and ?m = "length (cs ! i)"
  note b = valid_space_bounds [OF v i]
  have d: "divs (space_of cs) ! i = of_nat ?p" and m: "mods (space_of cs) ! i = of_nat ?m"
    using i by (simp_all add: space_of_def)
  have up: "unat (of_nat ?p :: u64) = ?p" and um: "unat (of_nat ?m :: u64) = ?m"
    using b by (simp_all add: u64_of_nat_inverse)
  have p0: "(of_nat ?p :: u64) \<noteq> 0"
    using up b(1) by (metis less_numeral_extra(3) unat_0)
  have m0: "(of_nat ?m :: u64) \<noteq> 0"
    using um b(4) by (metis less_numeral_extra(3) unat_0)
  from f have "\<not> 2 ^ 64 \<le> double_of_ull (n div of_nat ?p)"
    by simp
  then show ?thesis
    using i p0 m0 by (simp add: digit_of_def d m Let_def space_of_def)
qed

lemma digit_of_exact:
  assumes v: "valid_space TYPE('l::len) cs" and i: "i < length cs"
    and q: "unat n div place_value cs i \<le> 2 ^ 53"
  shows "digit_of n (space_of cs) i = Inr (of_nat (digit cs (unat n) i))"
proof -
  let ?p = "place_value cs i" and ?m = "length (cs ! i)"
  note b = valid_space_bounds [OF v i]
  have up: "unat (of_nat ?p :: u64) = ?p" and um: "unat (of_nat ?m :: u64) = ?m"
    using b by (simp_all add: u64_of_nat_inverse)
  let ?q = "n div of_nat ?p :: u64"
  have uq: "unat ?q = unat n div ?p"
    by (simp add: unat_div up)
  with q have "unat ?q \<le> 2 ^ 53"
    by simp
  then have f: "double_of_ull ?q = unat ?q"
    by (rule double_of_ull_exact)
  have lt: "unat ?q < 2 ^ 64"
    using unsigned_less [of ?q] by simp
  have "(of_nat (unat ?q) :: u64) mod of_nat ?m = of_nat (digit cs (unat n) i)"
  proof -
    have "unat (?q mod of_nat ?m) = digit cs (unat n) i"
      by (simp add: unat_mod um uq digit_def)
    then show ?thesis
      by (metis of_nat_unat ucast_id)
  qed
  moreover have "double_of_ull ?q < 2 ^ 64"
    unfolding f by (rule lt)
  with v i have "digit_of n (space_of cs) i = Inr (of_nat (double_of_ull ?q) mod of_nat ?m)"
    by (rule digit_of_space)
  ultimately show ?thesis
    by (simp add: f)
qed

lemma digit_of_valid:
  assumes v: "valid_space TYPE('l::len) cs" and i: "i < length cs" and n: "unat n \<le> 2 ^ 53"
  shows "digit_of n (space_of cs) i = Inr (of_nat (digit cs (unat n) i))"
proof -
  have "unat n div place_value cs i \<le> unat n"
    by (rule div_le_dividend)
  then have "unat n div place_value cs i \<le> 2 ^ 53"
    using n by (rule le_trans)
  with v i show ?thesis
    by (rule digit_of_exact)
qed

lemma entry_at_loop_digits:
  assumes "\<forall>j. i \<le> j \<and> j < length cs \<longrightarrow>
             digit_of n ps j = Inr (dg j) \<and> unat (dg j) < length (cs ! j)"
    and "length comb = length cs"
  shows "entry_at_loop cs n ps i comb =
           Inr (take i comb @ map (\<lambda>j. cs ! j ! unat (dg j)) [i..<length cs])"
  using assms
proof (induction cs n ps i comb rule: entry_at_loop.induct)
  case (1 combinations n ps i combination)
  show ?case
  proof (cases "i < length combinations")
    case False
    with "1.prems"(2) show ?thesis
      by (simp add: entry_at_loop.simps [of combinations n ps i combination])
  next
    case True
    let ?x = "combinations ! i ! unat (dg i)"
    from True "1.prems"(1) have d: "digit_of n ps i = Inr (dg i)"
      and b: "unat (dg i) < length (combinations ! i)"
      by simp_all
    have "entry_at_loop combinations n ps (i + 1) (combination[i := ?x]) =
        Inr (take (i + 1) (combination[i := ?x]) @
             map (\<lambda>j. combinations ! j ! unat (dg j)) [i + 1..<length combinations])"
      using True d b "1.prems" by (intro "1.IH") simp_all
    moreover have "take (i + 1) (combination[i := ?x]) = take i combination @ [?x]"
      using True "1.prems"(2) by (simp add: take_Suc_conv_app_nth)
    moreover have "[i..<length combinations] = i # [i + 1..<length combinations]"
      using True by (simp add: upt_conv_Cons)
    ultimately show ?thesis
      using True d b by (simp add: entry_at_loop.simps [of combinations n ps i combination])
  qed
qed

lemma entry_at_stats_valid:
  assumes v: "valid_space TYPE('l::len) cs" and n: "unat n \<le> 2 ^ 53"
  shows "entry_at_stats cs n (space_of cs) = Inr (decode cs (unat n))"
proof -
  have dg: "digit_of n (space_of cs) j = Inr (of_nat (digit cs (unat n) j)) \<and>
        unat (of_nat (digit cs (unat n) j) :: u64) < length (cs ! j)"
    if j: "j < length cs" for j
  proof -
    note b = valid_space_bounds [OF v j]
    have lt: "digit cs (unat n) j < length (cs ! j)"
      using b(4) by (simp add: digit_def)
    with b(5) have "digit cs (unat n) j < 2 ^ 64" by simp
    then have "unat (of_nat (digit cs (unat n) j) :: u64) = digit cs (unat n) j"
      by (rule u64_of_nat_inverse)
    with lt digit_of_valid [OF v j n] show ?thesis by simp
  qed
  have "entry_at_loop cs n (space_of cs) 0 (replicate (length cs) []) =
      Inr (take 0 (replicate (length cs) []) @
           map (\<lambda>j. cs ! j ! unat (of_nat (digit cs (unat n) j) :: u64)) [0..<length cs])"
    by (rule entry_at_loop_digits) (simp_all add: dg)
  also have "map (\<lambda>j. cs ! j ! unat (of_nat (digit cs (unat n) j) :: u64)) [0..<length cs]
      = decode cs (unat n)"
  proof -
    have "unat (of_nat (digit cs (unat n) j) :: u64) = digit cs (unat n) j" if "j < length cs" for j
    proof -
      note b = valid_space_bounds [OF v that]
      have "digit cs (unat n) j < length (cs ! j)"
        using b(4) by (simp add: digit_def)
      with b(5) have "digit cs (unat n) j < 2 ^ 64" by simp
      then show ?thesis by (rule u64_of_nat_inverse)
    qed
    then show ?thesis by (simp add: decode_def)
  qed
  finally show ?thesis
    by (simp add: entry_at_stats_def)
qed

lemma entry_at_loop_error:
  "entry_at_loop cs n ps i comb = Inl e \<Longrightarrow> e = undefined_behavior"
proof (induction cs n ps i comb rule: entry_at_loop.induct)
  case (1 combinations n ps i combination)
  show ?case
  proof (cases "digit_of n ps i")
    case (Inl e')
    then have "e' = undefined_behavior"
      by (auto simp: digit_of_def Let_def split: if_splits)
    with Inl "1.prems" show ?thesis
      by (simp add: entry_at_loop.simps [of combinations n ps i combination] split: if_splits)
  next
    case (Inr d)
    with "1.prems" "1.IH" show ?thesis
      by (simp add: entry_at_loop.simps [of combinations n ps i combination] split: if_splits)
  qed
qed

lemma entry_at_stats_error:
  "entry_at_stats cs n ps = Inl e \<Longrightarrow> e = undefined_behavior"
  unfolding entry_at_stats_def by (rule entry_at_loop_error)

text \<open>
  Above \<open>2 ^ 53\<close> the quotient is rounded, but as long as it is below
  \<open>2 ^ 64 - 2 ^ 10\<close> the rounded value is below \<open>2 ^ 64\<close> and the cast back is
  defined: the digit, taken modulo the size of the domain, is in bounds, and the
  private \<^verbatim>\<open>entry_at\<close> returns a combination.
\<close>

lemma double_of_ull_bound:
  assumes "unat x < 2 ^ 64 - 2 ^ 10"
  shows "double_of_ull x < 2 ^ 64"
proof -
  define v where "v = unat x"
  define s where "s = floorlog 2 v - 53"
  define q where "q = v div 2 ^ s"
  define r where "r = v mod 2 ^ s"
  from assms have v: "v < 2 ^ 64 - 2 ^ 10"
    by (simp add: v_def)
  then have "v < 2 ^ 64"
    by simp
  then have "floorlog 2 v \<le> 64"
    by (simp add: floorlog_le_iff)
  then have s11: "s \<le> 11"
    by (simp add: s_def)
  have vqr: "v = q * 2 ^ s + r"
    unfolding q_def r_def by (rule div_mult_mod_eq [symmetric])
  have q53: "q < 2 ^ 53"
  proof (cases "floorlog 2 v \<le> 53")
    case True
    then have "v < 2 ^ 53"
      by (simp add: floorlog_le_iff)
    moreover from True have "s = 0"
      by (simp add: s_def)
    ultimately show ?thesis
      by (simp add: q_def)
  next
    case False
    then have fs: "floorlog 2 v = 53 + s"
      by (simp add: s_def)
    have "floorlog 2 v \<le> 53 + s"
      using fs by simp
    then have "v < 2 ^ (53 + s)"
      by (simp add: floorlog_le_iff)
    then have "v < 2 ^ 53 * 2 ^ s"
      by (simp add: power_add)
    then show ?thesis
      unfolding q_def by (simp add: less_mult_imp_div_less)
  qed
  have d: "double_of_ull x =
      (if 2 * r < 2 ^ s \<or> (2 * r = 2 ^ s \<and> even q) then q * 2 ^ s else (q + 1) * 2 ^ s)"
    by (simp add: double_of_ull_def Let_def v_def s_def q_def r_def)
  show ?thesis
  proof (cases "2 * r < 2 ^ s \<or> (2 * r = 2 ^ s \<and> even q)")
    case True
    then have "double_of_ull x = q * 2 ^ s"
      by (simp add: d)
    also have "\<dots> \<le> v"
      by (simp add: vqr)
    finally show ?thesis
      using \<open>v < 2 ^ 64\<close> by simp
  next
    case False
    then have e: "double_of_ull x = (q + 1) * 2 ^ s"
      by (simp add: d)
    from False have half: "2 ^ s \<le> 2 * r"
      by auto
    show ?thesis
    proof (cases "s = 11")
      case True
      from half vqr v q53 have "(q + 1) * 2048 < (2::nat) ^ 64"
        unfolding True by simp
      then show ?thesis
        by (simp add: e True)
    next
      case False
      with s11 have "s \<le> 10"
        by simp
      then have p: "(2::nat) ^ s \<le> 2 ^ 10"
        by (intro power_increasing) simp_all
      from q53 have "q + 1 \<le> 2 ^ 53"
        by simp
      then have "(q + 1) * 2 ^ s \<le> 2 ^ 53 * 2 ^ 10"
        using p by (rule mult_le_mono)
      then show ?thesis
        by (simp add: e)
    qed
  qed
qed

lemma digit_of_defined:
  assumes v: "valid_space TYPE('l::len) cs" and i: "i < length cs"
    and q: "unat n div place_value cs i < 2 ^ 64 - 2 ^ 10"
  shows "\<exists>d. digit_of n (space_of cs) i = Inr d \<and> unat d < length (cs ! i)"
proof -
  let ?p = "place_value cs i" and ?m = "length (cs ! i)"
  note b = valid_space_bounds [OF v i]
  have up: "unat (of_nat ?p :: u64) = ?p" and um: "unat (of_nat ?m :: u64) = ?m"
    using b by (simp_all add: u64_of_nat_inverse)
  let ?q = "n div of_nat ?p :: u64"
  have "unat ?q = unat n div ?p"
    by (simp add: unat_div up)
  with q have "unat ?q < 2 ^ 64 - 2 ^ 10"
    by simp
  then have "double_of_ull ?q < 2 ^ 64"
    by (rule double_of_ull_bound)
  with v i have "digit_of n (space_of cs) i =
      Inr (of_nat (double_of_ull ?q) mod of_nat ?m)"
    by (rule digit_of_space)
  moreover have "unat ((of_nat (double_of_ull ?q) :: u64) mod of_nat ?m) < ?m"
    using b(4) by (simp add: unat_mod um)
  ultimately show ?thesis
    by simp
qed

lemma entry_at_stats_defined:
  assumes v: "valid_space TYPE('l::len) cs" and n: "unat n < 2 ^ 64 - 2 ^ 10"
  shows "\<exists>c. entry_at_stats cs n (space_of cs) = Inr c \<and> length c = length cs \<and>
           (\<forall>i<length cs. c ! i \<in> set (cs ! i))"
proof -
  define dg where "dg j = (of_nat (double_of_ull (n div of_nat (place_value cs j))) :: u64) mod
      of_nat (length (cs ! j))" for j
  have dg: "digit_of n (space_of cs) j = Inr (dg j) \<and> unat (dg j) < length (cs ! j)"
    if j: "j < length cs" for j
  proof -
    have "unat n div place_value cs j \<le> unat n"
      by (rule div_le_dividend)
    with n have q: "unat n div place_value cs j < 2 ^ 64 - 2 ^ 10"
      by linarith
    from digit_of_defined [OF v j q]
    obtain d where d: "digit_of n (space_of cs) j = Inr d" and lt: "unat d < length (cs ! j)"
      by blast
    have "double_of_ull (n div of_nat (place_value cs j)) < 2 ^ 64"
    proof -
      note b = valid_space_bounds [OF v j]
      have "unat (of_nat (place_value cs j) :: u64) = place_value cs j"
        using b by (simp add: u64_of_nat_inverse)
      then have "unat (n div of_nat (place_value cs j)) = unat n div place_value cs j"
        by (simp add: unat_div)
      with q have "unat (n div of_nat (place_value cs j)) < 2 ^ 64 - 2 ^ 10"
        by simp
      then show ?thesis
        by (rule double_of_ull_bound)
    qed
    with v j have "digit_of n (space_of cs) j = Inr (dg j)"
      unfolding dg_def by (rule digit_of_space)
    with d lt show ?thesis
      by simp
  qed
  have "entry_at_loop cs n (space_of cs) 0 (replicate (length cs) []) =
      Inr (take 0 (replicate (length cs) []) @ map (\<lambda>j. cs ! j ! unat (dg j)) [0..<length cs])"
    by (rule entry_at_loop_digits) (simp_all add: dg)
  then have "entry_at_stats cs n (space_of cs) = Inr (map (\<lambda>j. cs ! j ! unat (dg j)) [0..<length cs])"
    by (simp add: entry_at_stats_def)
  moreover have "\<forall>i<length cs. map (\<lambda>j. cs ! j ! unat (dg j)) [0..<length cs] ! i \<in> set (cs ! i)"
    using dg by simp
  ultimately show ?thesis
    by simp
qed

text \<open>When the digit of some position is not defined, the loop fails there.\<close>

lemma entry_at_loop_fails:
  assumes "k < length cs" and "i \<le> k"
    and "\<forall>j. i \<le> j \<and> j < k \<longrightarrow> (\<exists>d. digit_of n ps j = Inr d \<and> unat d < length (cs ! j))"
    and "digit_of n ps k = Inl e"
  shows "entry_at_loop cs n ps i comb = Inl e"
  using assms
proof (induction cs n ps i comb rule: entry_at_loop.induct)
  case (1 combinations n ps i combination)
  from "1.prems"(1,2) have lt: "i < length combinations"
    by simp
  show ?case
  proof (cases "i = k")
    case True
    with lt "1.prems"(4) show ?thesis
      by (simp add: entry_at_loop.simps [of combinations n ps i combination])
  next
    case False
    with "1.prems"(2) have ik: "i < k"
      by simp
    with "1.prems"(3) obtain d where d: "digit_of n ps i = Inr d"
      and b: "unat d < length (combinations ! i)"
      by blast
    have "entry_at_loop combinations n ps (i + 1)
        (combination[i := combinations ! i ! unat d]) = Inl e"
      using lt d b ik "1.prems" by (intro "1.IH") simp_all
    then show ?thesis
      using lt d b by (simp add: entry_at_loop.simps [of combinations n ps i combination])
  qed
qed

lemma entry_at_valid:
  assumes v: "valid_space TYPE('l::len) cs" and t: "total_size cs \<le> 2 ^ 53" and i: "i < total_size cs"
  shows "entry_at TYPE('l) cs (of_nat i) = Inr (product_lists cs ! i)"
    and "entry_at_stats cs (of_nat i) (space_of cs) = Inr (product_lists cs ! i)"
    and "unat (of_nat i :: u64) = i" and "(of_nat i :: u64) < max_size (space_of cs)"
proof -
  note m = valid_max_size [OF v]
  from i m(4) have "i < 2 ^ 64"
    by (rule less_trans)
  then show u: "unat (of_nat i :: u64) = i"
    by (rule u64_of_nat_inverse)
  have mxs: "max_size (space_of cs) = compute_max_size cs"
    by (simp add: space_of_def m(1))
  show lt: "(of_nat i :: u64) < max_size (space_of cs)"
    using i by (simp add: mxs word_less_nat_alt u m(2))
  have "unat (of_nat i :: u64) \<le> 2 ^ 53"
    using i t u by simp
  with v have "entry_at_stats cs (of_nat i) (space_of cs) = Inr (decode cs (unat (of_nat i :: u64)))"
    by (rule entry_at_stats_valid)
  then show e: "entry_at_stats cs (of_nat i) (space_of cs) = Inr (product_lists cs ! i)"
    using i by (simp add: u product_lists_nth)
  from lt have "\<not> max_size (space_of cs) \<le> of_nat i"
    by simp
  then show "entry_at TYPE('l) cs (of_nat i) = Inr (product_lists cs ! i)"
    using e by (simp add: entry_at_def precompute_valid [OF v])
qed

lemma full_loop_valid:
  assumes "valid_space TYPE('l::len) cs" and "unat s \<le> 2 ^ 53" and "ps = space_of cs"
  shows "full_loop cs ps i s acc = Inr (acc @ map (decode cs) [unat i..<unat s])"
  using assms
proof (induction cs ps i s acc rule: full_loop.induct)
  case (1 combinations ps i sample_size subset_v)
  note v = "1.prems"(1) and s = "1.prems"(2) and ps = "1.prems"(3)
  show ?case
  proof (cases "i < sample_size")
    case False
    then have "unat sample_size \<le> unat i"
      by (simp add: word_less_nat_alt)
    with False show ?thesis
      by (simp add: full_loop.simps [of combinations ps i sample_size subset_v])
  next
    case True
    then have lt: "unat i < unat sample_size"
      by (simp add: word_less_nat_alt)
    from True have suc: "unat (i + 1) = unat i + 1"
      by unat_arith
    from lt s have "unat i \<le> 2 ^ 53" by simp
    with v have e: "entry_at_stats combinations i ps = Inr (decode combinations (unat i))"
      unfolding ps by (rule entry_at_stats_valid)
    have "full_loop combinations ps (i + 1) sample_size
            (subset_v @ [decode combinations (unat i)]) =
          Inr ((subset_v @ [decode combinations (unat i)]) @
               map (decode combinations) [unat (i + 1)..<unat sample_size])"
      using True e v s ps by (intro "1.IH") simp_all
    moreover have "[unat i..<unat sample_size] = unat i # [unat (i + 1)..<unat sample_size]"
      using lt suc by (simp add: upt_conv_Cons)
    ultimately show ?thesis
      using True e by (simp add: full_loop.simps [of combinations ps i sample_size subset_v])
  qed
qed

section \<open>What the sampler guarantees\<close>

text \<open>
  A value that the \<^verbatim>\<open>int\<close> distribution can return is at most \<open>range_size\<close>.
\<close>

lemma int32_nonneg_sint:
  fixes w :: int32
  assumes "0 \<le> sint w"
  shows "sint w = uint w"
proof -
  have s: "sint w = signed_take_bit 31 (uint w)"
    by (simp add: sint_uint)
  with assms have nb: "\<not> bit (uint w) 31"
    by simp
  then have "signed_take_bit 31 (uint w) = take_bit 31 (uint w)"
    by (rule signed_take_bit_eq_if_positive)
  moreover have "take_bit (Suc 31) (uint w) = 2 ^ 31 * of_bool (bit (uint w) 31) + take_bit 31 (uint w)"
    by (rule take_bit_Suc_from_most)
  moreover have "take_bit (Suc 31) (uint w) = uint w"
    using uint_lt2p [of w] by (simp add: take_bit_int_eq_self)
  ultimately show ?thesis
    using nb s by simp
qed

lemma ucast_int32_le:
  fixes rs :: u64
  shows "uint (ucast rs :: int32) \<le> uint rs"
proof -
  have "uint (ucast rs :: int32) = take_bit 32 (uint rs)"
    by (simp add: unsigned_ucast_eq)
  also have "\<dots> \<le> uint rs"
    by (simp add: take_bit_int_less_eq_self_iff)
  finally show ?thesis .
qed

lemma scast_nonneg:
  fixes g :: int32
  assumes "0 \<le> sint g"
  shows "unat (scast g :: u64) = nat (sint g)"
proof -
  have "sint g < 2 ^ 31"
    using sint_lt [of g] by simp
  then have lt: "sint g < 2 ^ 64"
    by simp
  have "uint (scast g :: u64) = uint (word_of_int (sint g) :: u64)"
    by (simp only: scast_eq)
  also have "\<dots> = take_bit LENGTH(64) (sint g)"
    by (rule uint_word_of_int_eq)
  also have "\<dots> = sint g"
    using assms lt by (simp add: take_bit_int_eq_self)
  finally show ?thesis
    by (simp only: unat_eq_nat_uint)
qed

lemma rnd_returns_bound:
  assumes "rnd_returns range_size g"
  shows "unat (scast g :: u64) \<le> unat range_size"
proof -
  from assms have g0: "0 \<le> sint g" and le: "sint g \<le> sint (ucast range_size :: int32)"
    by (simp_all add: rnd_returns_def word_sle_eq)
  from g0 le have "0 \<le> sint (ucast range_size :: int32)"
    by simp
  then have "sint (ucast range_size :: int32) = uint (ucast range_size :: int32)"
    by (rule int32_nonneg_sint)
  with le ucast_int32_le [of range_size] have "sint g \<le> uint range_size"
    by simp
  then have "nat (sint g) \<le> nat (uint range_size)"
    by (rule nat_mono)
  moreover have "unat (scast g :: u64) = nat (sint g)"
    using g0 by (rule scast_nonneg)
  moreover have "unat range_size = nat (uint range_size)"
    by (rule unat_eq_nat_uint)
  ultimately show ?thesis
    by (simp only:)
qed

lemma div_plus_le:
  fixes m l :: nat
  assumes "0 < l" and "l \<le> m + 1"
  shows "m div l + l \<le> m + 1"
proof (cases "m < l")
  case True
  with assms show ?thesis by simp
next
  case False
  define q where "q = m div l"
  from False assms(1) have q: "0 < q"
    by (simp add: q_def div_greater_zero_iff)
  have "q + l \<le> q * l + 1"
  proof -
    from q assms(1) obtain q' l' where "q = Suc q'" "l = Suc l'"
      by (metis Suc_pred)
    then show ?thesis by simp
  qed
  moreover have "q * l \<le> m"
    by (simp add: q_def)
  ultimately have "q + l \<le> m + 1"
    by linarith
  then show ?thesis
    by (simp only: q_def)
qed

text \<open>
  One call of \<^verbatim>\<open>next()\<close> under the invariant: the value returned is greater than
  the last one, and the invariant holds again. Hence, for \<open>amount \<le> max\<close> and
  \<open>max < 2 ^ 64 - 1\<close>, and for values that the distributions can return:
  \<open>amount\<close> calls return a strictly increasing sequence of values between 1 and
  \<open>max + 1\<close>, and the next call fails with \<^verbatim>\<open>out_of_range\<close>.
\<close>

lemma sampler_inv_new:
  assumes "amount \<le> mx" and "unat mx + 1 < 2 ^ 64"
  shows "sampler_inv (new_RandomIterator amount mx)"
  using assms by (simp add: sampler_inv_def new_RandomIterator_def word_le_nat_alt)

lemma sampler_step:
  assumes inv: "sampler_inv it" and left: "num_left it \<noteq> 0"
    and g: "rnd_returns (range_size_of it) g"
  shows "\<exists>r it'. RandomIterator_next it g = Inr (r, it') \<and> sampler_inv it' \<and>
           last_k it < r \<and> last_k it' = r \<and> ri_n it' = ri_n it \<and>
           unat (num_left it') + 1 = unat (num_left it) \<and>
           unat r + unat (num_left it') \<le> unat (ri_n it) + 1"
proof -
  let ?n = "unat (ri_n it)" and ?l = "unat (last_k it)" and ?k = "unat (num_left it)"
  let ?g = "unat (scast g :: u64)"
  from inv have i1: "?l + ?k \<le> ?n + 1" and i2: "?n + 1 < 2 ^ 64"
    by (simp_all add: sampler_inv_def)
  from left have k: "0 < ?k"
    by (simp add: unat_gt_0)
  from i1 k have ln: "?l \<le> ?n"
    by simp
  then have "last_k it \<le> ri_n it"
    by (simp add: word_le_nat_alt)
  then have sub: "unat (ri_n it - last_k it) = ?n - ?l"
    by (rule unat_sub)
  have rs: "unat (range_size_of it) = (?n - ?l) div ?k"
    by (simp add: range_size_of_def unat_div sub)
  from g have gle: "?g \<le> (?n - ?l) div ?k"
    unfolding rs [symmetric] by (rule rnd_returns_bound)
  have "(?n - ?l) div ?k \<le> ?n - ?l"
    by (rule div_le_dividend)
  with gle ln have sum: "?g + ?l + 1 \<le> ?n + 1"
    by linarith
  with i2 have lt: "?g + ?l + 1 < 2 ^ 64"
    by simp
  define r where "r = scast g + last_k it + 1"
  have "r = of_nat (?g + ?l + 1)"
    by (simp add: r_def)
  then have ur: "unat r = ?g + ?l + 1"
    using lt by (simp only: u64_of_nat_inverse)
  have km: "unat (num_left it - 1) = ?k - 1"
    using left by (simp add: unat_minus_one)
  from k i1 ln have "?k \<le> (?n - ?l) + 1"
    by simp
  with k have "(?n - ?l) div ?k + ?k \<le> (?n - ?l) + 1"
    by (rule div_plus_le)
  with gle ln k have new: "?g + ?l + 1 + (?k - 1) \<le> ?n + 1"
    by linarith
  from g have "\<not> (ucast (range_size_of it) :: int32) <s 0"
    by (simp add: rnd_returns_def word_sle_eq word_sless_alt)
  then have nx: "RandomIterator_next it g = Inr (r, it\<lparr>last_k := r, num_left := num_left it - 1\<rparr>)"
    using left by (simp add: RandomIterator_next_def range_size_of_def r_def Let_def
        word_greater_zero_iff)
  have "last_k it < r"
    by (simp add: word_less_nat_alt ur)
  moreover have "sampler_inv (it\<lparr>last_k := r, num_left := num_left it - 1\<rparr>)"
    using new i2 by (simp add: sampler_inv_def ur km)
  moreover have "unat (num_left it - 1) + 1 = ?k"
    using k by (simp add: km)
  moreover have "unat r + unat (num_left it - 1) \<le> ?n + 1"
    using new by (simp add: ur km)
  ultimately show ?thesis
    using nx by simp
qed

lemma sampler_exhausted:
  "num_left it = 0 \<Longrightarrow> RandomIterator_next it g = Inl out_of_range"
  by (simp add: RandomIterator_next_def)

lemma sampler_calls:
  assumes "sampler_inv it" and "draws_ok it gs"
  shows "\<exists>rs it'. next_calls it gs = Inr (rs, it') \<and> length rs = length gs \<and>
           sorted_wrt (<) rs \<and>
           (\<forall>r\<in>set rs. last_k it < r \<and> unat r \<le> unat (ri_n it) + 1) \<and>
           sampler_inv it' \<and> ri_n it' = ri_n it \<and>
           unat (num_left it') + length gs = unat (num_left it)"
  using assms
proof (induction gs arbitrary: it)
  case Nil
  then show ?case by simp
next
  case (Cons g gs)
  from Cons.prems(2) have g: "rnd_returns (range_size_of it) g"
    by simp
  have left: "num_left it \<noteq> 0"
  proof
    assume "num_left it = 0"
    then have "RandomIterator_next it g = Inl out_of_range"
      by (rule sampler_exhausted)
    with Cons.prems(2) show False by simp
  qed
  from sampler_step [OF Cons.prems(1) left g]
  obtain r it1 where nx: "RandomIterator_next it g = Inr (r, it1)" and inv1: "sampler_inv it1"
    and lr: "last_k it < r" and l1: "last_k it1 = r" and n1: "ri_n it1 = ri_n it"
    and k1: "unat (num_left it1) + 1 = unat (num_left it)"
    and b1: "unat r + unat (num_left it1) \<le> unat (ri_n it) + 1"
    by blast
  from Cons.prems(2) nx have ok1: "draws_ok it1 gs"
    by simp
  from Cons.IH [OF inv1 ok1]
  obtain rs it2 where c: "next_calls it1 gs = Inr (rs, it2)" and len: "length rs = length gs"
    and srt: "sorted_wrt (<) rs"
    and bnd: "\<forall>x\<in>set rs. last_k it1 < x \<and> unat x \<le> unat (ri_n it1) + 1"
    and inv2: "sampler_inv it2" and n2: "ri_n it2 = ri_n it1"
    and k2: "unat (num_left it2) + length gs = unat (num_left it1)"
    by blast
  have "next_calls it (g # gs) = Inr (r # rs, it2)"
    by (simp add: nx c)
  moreover have "sorted_wrt (<) (r # rs)"
    using srt bnd l1 by simp
  moreover have "\<forall>x\<in>set (r # rs). last_k it < x \<and> unat x \<le> unat (ri_n it) + 1"
  proof
    fix x
    assume "x \<in> set (r # rs)"
    then consider "x = r" | "x \<in> set rs" by auto
    then show "last_k it < x \<and> unat x \<le> unat (ri_n it) + 1"
    proof cases
      case 1
      with lr b1 show ?thesis by simp
    next
      case 2
      with bnd l1 n1 have "r < x" and "unat x \<le> unat (ri_n it) + 1"
        by simp_all
      with lr show ?thesis by simp
    qed
  qed
  moreover have "unat (num_left it2) + length (g # gs) = unat (num_left it)"
    using k1 k2 by simp
  ultimately show ?case
    using len inv2 n1 n2 by simp
qed

lemma sampler_sequence:
  assumes "amount \<le> mx" and "unat mx + 1 < 2 ^ 64"
    and "draws_ok (new_RandomIterator amount mx) gs" and "length gs = unat amount"
  shows "\<exists>rs it'. next_calls (new_RandomIterator amount mx) gs = Inr (rs, it') \<and>
           length rs = unat amount \<and> sorted_wrt (<) rs \<and>
           (\<forall>r\<in>set rs. 0 < r \<and> unat r \<le> unat mx + 1) \<and>
           \<not> has_next it' \<and> RandomIterator_next it' g = Inl out_of_range"
proof -
  have inv: "sampler_inv (new_RandomIterator amount mx)"
    using assms(1,2) by (rule sampler_inv_new)
  from sampler_calls [OF inv assms(3)]
  obtain rs it' where c: "next_calls (new_RandomIterator amount mx) gs = Inr (rs, it')"
    and len: "length rs = length gs" and srt: "sorted_wrt (<) rs"
    and bnd: "\<forall>r\<in>set rs. last_k (new_RandomIterator amount mx) < r \<and>
                unat r \<le> unat (ri_n (new_RandomIterator amount mx)) + 1"
    and k: "unat (num_left it') + length gs = unat (num_left (new_RandomIterator amount mx))"
    by blast
  from k assms(4) have "unat (num_left it') = 0"
    by (simp add: new_RandomIterator_def)
  then have z: "num_left it' = 0"
    by (simp add: unat_eq_zero)
  then have "RandomIterator_next it' g = Inl out_of_range"
    by (rule sampler_exhausted)
  moreover from z have "\<not> has_next it'"
    by (simp add: has_next_def)
  moreover from bnd have "\<forall>r\<in>set rs. 0 < r \<and> unat r \<le> unat mx + 1"
    by (simp add: new_RandomIterator_def)
  ultimately show ?thesis
    using c len srt assms(4) by simp
qed

text \<open>An instance: two of three, the distribution returning 0 and then 2.\<close>

lemma sampler_sequence_example:
  "\<exists>it'. next_calls (new_RandomIterator 2 3) [0, 2] = Inr ([1, 4], it') \<and> \<not> has_next it'"
proof -
  have ok: "draws_ok (new_RandomIterator 2 3) [0, 2]"
    by (simp add: RandomIterator_next_def new_RandomIterator_def word_sless_alt rnd_returns_def
        range_size_of_def word_sle_eq)
  have "(2 :: u64) \<le> 3" and "unat (3 :: u64) + 1 < 2 ^ 64" and "length [0, 2 :: int32] = unat (2 :: u64)"
    by simp_all
  from sampler_sequence [OF this(1,2) ok this(3), of 0]
  obtain rs it' where "next_calls (new_RandomIterator 2 3) [0, 2] = Inr (rs, it')"
    and "\<not> has_next it'"
    by blast
  moreover have "next_calls (new_RandomIterator 2 3) [0, 2] =
      Inr ([1, 4], \<lparr>ri_n = 3, last_k = 4, num_left = 0\<rparr>)"
    by (simp add: RandomIterator_next_def new_RandomIterator_def word_sless_alt)
  ultimately show ?thesis
    by simp
qed

text \<open>
  The sampling loop of \<^verbatim>\<open>generate_samples\<close> decodes the values of the sampler one
  after the other: where the calls of \<^verbatim>\<open>next()\<close> succeed and the values are at
  most \<open>2 ^ 53\<close>, the result is the list of their decodings.
\<close>

lemma sample_loop_calls:
  assumes "valid_space TYPE('l::len) cs" and "ps = space_of cs"
    and "draws_ok it (map draws [j..<j + unat (num_left it)])"
    and "next_calls it (map draws [j..<j + unat (num_left it)]) = Inr (rs, it')"
    and "\<forall>r\<in>set rs. unat r \<le> 2 ^ 53"
  shows "sample_loop cs ps it draws j acc = Inr (acc @ map (\<lambda>r. decode cs (unat r)) rs)"
  using assms
proof (induction cs ps it draws j acc arbitrary: rs rule: sample_loop.induct)
  case (1 combinations ps iter draws j subset_v)
  note v = "1.prems"(1) and ps = "1.prems"(2)
  show ?case
  proof (cases "has_next iter")
    case False
    then have "num_left iter = 0"
      by (simp add: has_next_def word_greater_zero_iff)
    with "1.prems"(4) have "rs = []"
      by simp
    with False show ?thesis
      by (simp add: sample_loop.simps [of combinations ps iter draws j subset_v])
  next
    case True
    then have pos: "num_left iter \<noteq> 0"
      by (simp add: has_next_def word_greater_zero_iff)
    then have k: "0 < unat (num_left iter)"
      by (simp add: unat_gt_0)
    then have up: "[j..<j + unat (num_left iter)] = j # [j + 1..<j + unat (num_left iter)]"
      by (simp add: upt_conv_Cons)
    from "1.prems"(3) obtain r it1 where nx: "RandomIterator_next iter (draws j) = Inr (r, it1)"
      and ok1: "draws_ok it1 (map draws [j + 1..<j + unat (num_left iter)])"
      unfolding up by (auto split: sum.splits)
    from nx pos have l1: "num_left it1 = num_left iter - 1"
      by (auto simp: RandomIterator_next_def Let_def split: if_splits)
    have "unat (num_left iter - 1) = unat (num_left iter) - 1"
      using pos by (simp add: unat_minus_one)
    with k l1 have range: "j + unat (num_left iter) = j + 1 + unat (num_left it1)"
      by simp
    from "1.prems"(4) nx obtain rs1 where c1: "next_calls it1 (map draws [j + 1..<j + unat (num_left iter)]) = Inr (rs1, it')"
      and rs: "rs = r # rs1"
      unfolding up by (auto split: sum.splits)
    from "1.prems"(5) rs have r53: "unat r \<le> 2 ^ 53" and rs53: "\<forall>x\<in>set rs1. unat x \<le> 2 ^ 53"
      by simp_all
    from v r53 have e: "entry_at_stats combinations r ps = Inr (decode combinations (unat r))"
      unfolding ps by (rule entry_at_stats_valid)
    have "sample_loop combinations ps it1 draws (j + 1) (subset_v @ [decode combinations (unat r)]) =
        Inr ((subset_v @ [decode combinations (unat r)]) @ map (\<lambda>r. decode combinations (unat r)) rs1)"
      using True nx e v ps ok1 c1 rs53 unfolding range
      by (intro "1.IH") simp_all
    then show ?thesis
      using True nx e rs by (simp add: sample_loop.simps [of combinations ps iter draws j subset_v])
  qed
qed

section \<open>Concrete spaces\<close>

text \<open>The example of the README and of the specification: two domains of two symbols.\<close>

lemma pizza_valid: "valid_space TYPE(64) [[''Thin'', ''Thick''], [''Marinara'', ''BBQ'']]"
  by (simp add: valid_space_def total_size_def)

lemma pizza_total: "total_size [[''Thin'', ''Thick''], [''Marinara'', ''BBQ'']] = 4"
  by (simp add: total_size_def)

lemma pizza_space:
  "space_of [[''Thin'', ''Thick''], [''Marinara'', ''BBQ'']] = \<lparr>divs = [2, 1], mods = [2, 2], max_size = 4\<rparr>"
  by (simp add: space_of_def place_value_def total_size_def upt_conv_Cons)

lemma pizza_decode:
  "decode [[''Thin'', ''Thick''], [''Marinara'', ''BBQ'']] 0 = [''Thin'', ''Marinara'']"
  "decode [[''Thin'', ''Thick''], [''Marinara'', ''BBQ'']] 1 = [''Thin'', ''BBQ'']"
  "decode [[''Thin'', ''Thick''], [''Marinara'', ''BBQ'']] 2 = [''Thick'', ''Marinara'']"
  "decode [[''Thin'', ''Thick''], [''Marinara'', ''BBQ'']] 3 = [''Thick'', ''BBQ'']"
  by (simp_all add: decode_def digit_def place_value_def upt_conv_Cons flip: numeral_2_eq_2)

lemma space_abc:
  "precompute TYPE(64) [[''a'', ''b'', ''c'']] = Inr \<lparr>divs = [1], mods = [3], max_size = 3\<rparr>"
  by (simp add: precompute_def compute_max_size_def)

lemma space_ab:
  "precompute TYPE(64) [[''a'', ''b'']] = Inr \<lparr>divs = [1], mods = [2], max_size = 2\<rparr>"
  by (simp add: precompute_def compute_max_size_def)

lemma abc_at_1:
  "entry_at_stats [[''a'', ''b'', ''c'']] 1 \<lparr>divs = [1], mods = [3], max_size = 3\<rparr> = Inr [''b'']"
  by (simp add: entry_at_stats_def entry_at_loop.simps digit_of_def double_of_ull_exact)

lemma abc_at_4:
  "entry_at_stats [[''a'', ''b'', ''c'']] 4 \<lparr>divs = [1], mods = [3], max_size = 3\<rparr> = Inr [''b'']"
  by (simp add: entry_at_stats_def entry_at_loop.simps digit_of_def double_of_ull_exact)

lemma ab_at_1:
  "entry_at_stats [[''a'', ''b'']] 1 \<lparr>divs = [1], mods = [2], max_size = 2\<rparr> = Inr [''b'']"
  by (simp add: entry_at_stats_def entry_at_loop.simps digit_of_def double_of_ull_exact)

lemma ab_at_2:
  "entry_at_stats [[''a'', ''b'']] 2 \<lparr>divs = [1], mods = [2], max_size = 2\<rparr> = Inr [''a'']"
  by (simp add: entry_at_stats_def entry_at_loop.simps digit_of_def double_of_ull_exact)

lemma ab_at_3:
  "entry_at_stats [[''a'', ''b'']] 3 \<lparr>divs = [1], mods = [2], max_size = 2\<rparr> = Inr [''b'']"
  by (simp add: entry_at_stats_def entry_at_loop.simps digit_of_def double_of_ull_exact)

text \<open>
  Five domains of 16, 32767, 32769, 33025 and 32513 symbols: the product of the
  sizes is \<open>2 ^ 64 - 16\<close>, which fits 64 bits. At the last index, \<open>2 ^ 64 - 17\<close>,
  the quotient of the last position is the index itself; its \<^verbatim>\<open>double\<close> is
  \<open>2 ^ 64\<close>.
\<close>

lemma wide_valid:
  "valid_space TYPE(64) [replicate 16 ''x'', replicate 32767 ''x'', replicate 32769 ''x'',
     replicate 33025 ''x'', replicate 32513 ''x'']"
  by (simp add: valid_space_def total_size_def)

lemma wide_space: "space_of [replicate 16 ''x'', replicate 32767 ''x'', replicate 32769 ''x'',
     replicate 33025 ''x'', replicate 32513 ''x''] = \<lparr>divs = [1152921504606846975, 35185445863425, 1073741825, 32513, 1],
       mods = [16, 32767, 32769, 33025, 32513], max_size = 18446744073709551600\<rparr>"
  by (simp add: space_of_def place_value_def total_size_def upt_conv_Cons)

lemma double_of_ull_rounds_up:
  "double_of_ull 18446744073709551599 = 18446744073709551616"
proof -
  have "floorlog 2 (18446744073709551599::nat) = 64"
    by (simp add: compute_floorlog)
  then show ?thesis
    by (simp add: double_of_ull_def Let_def)
qed

lemma wide_digits:
  "digit_of 18446744073709551599 \<lparr>divs = [1152921504606846975, 35185445863425, 1073741825, 32513, 1],
       mods = [16, 32767, 32769, 33025, 32513], max_size = 18446744073709551600\<rparr> 0 = Inr 15"
  "digit_of 18446744073709551599 \<lparr>divs = [1152921504606846975, 35185445863425, 1073741825, 32513, 1],
       mods = [16, 32767, 32769, 33025, 32513], max_size = 18446744073709551600\<rparr> 1 = Inr 32766"
  "digit_of 18446744073709551599 \<lparr>divs = [1152921504606846975, 35185445863425, 1073741825, 32513, 1],
       mods = [16, 32767, 32769, 33025, 32513], max_size = 18446744073709551600\<rparr> 2 = Inr 32768"
  "digit_of 18446744073709551599 \<lparr>divs = [1152921504606846975, 35185445863425, 1073741825, 32513, 1],
       mods = [16, 32767, 32769, 33025, 32513], max_size = 18446744073709551600\<rparr> 3 = Inr 33024"
  "digit_of 18446744073709551599 \<lparr>divs = [1152921504606846975, 35185445863425, 1073741825, 32513, 1],
       mods = [16, 32767, 32769, 33025, 32513], max_size = 18446744073709551600\<rparr> 4 = Inl undefined_behavior"
  by (simp_all add: digit_of_def double_of_ull_exact double_of_ull_rounds_up)

lemma wide_last:
  "entry_at_stats [replicate 16 ''x'', replicate 32767 ''x'', replicate 32769 ''x'',
     replicate 33025 ''x'', replicate 32513 ''x''] 18446744073709551599
     \<lparr>divs = [1152921504606846975, 35185445863425, 1073741825, 32513, 1],
       mods = [16, 32767, 32769, 33025, 32513], max_size = 18446744073709551600\<rparr> = Inl undefined_behavior"
proof -
  let ?cs = "[replicate 16 ''x'', replicate 32767 ''x'', replicate 32769 ''x'',
     replicate 33025 ''x'', replicate 32513 ''x'']"
  let ?ps = "\<lparr>divs = [1152921504606846975, 35185445863425, 1073741825, 32513, 1],
       mods = [16, 32767, 32769, 33025, 32513], max_size = 18446744073709551600\<rparr>"
  let ?n = "18446744073709551599 :: u64"
  have c0: "\<exists>d. digit_of ?n ?ps 0 = Inr d \<and> unat d < length (?cs ! 0)"
    by (simp add: wide_digits(1))
  have c1: "\<exists>d. digit_of ?n ?ps 1 = Inr d \<and> unat d < length (?cs ! 1)"
    by (simp add: wide_digits(2) del: One_nat_def)
  have c2: "\<exists>d. digit_of ?n ?ps 2 = Inr d \<and> unat d < length (?cs ! 2)"
    by (simp add: wide_digits(3))
  have c3: "\<exists>d. digit_of ?n ?ps 3 = Inr d \<and> unat d < length (?cs ! 3)"
    by (simp add: wide_digits(4))
  have dg: "\<exists>d. digit_of ?n ?ps j = Inr d \<and> unat d < length (?cs ! j)" if "j < 4" for j
  proof -
    from that have "j = 0 \<or> j = 1 \<or> j = 2 \<or> j = 3"
      by arith
    then show ?thesis
      using c0 c1 c2 c3 by (elim disjE) (simp_all only:)
  qed
  have "entry_at_loop ?cs ?n ?ps 0 (replicate (length ?cs) []) = Inl undefined_behavior"
  proof (rule entry_at_loop_fails [where k = 4])
    show "4 < length ?cs" by simp
    show "0 \<le> (4::nat)" by simp
    show "\<forall>j. 0 \<le> j \<and> j < 4 \<longrightarrow> (\<exists>d. digit_of ?n ?ps j = Inr d \<and> unat d < length (?cs ! j))"
      using dg by blast
    show "digit_of ?n ?ps 4 = Inl undefined_behavior"
      by (rule wide_digits(5))
  qed
  then show ?thesis
    unfolding entry_at_stats_def .
qed

lemma wide_entry_at:
  "entry_at TYPE(64) [replicate 16 ''x'', replicate 32767 ''x'', replicate 32769 ''x'',
     replicate 33025 ''x'', replicate 32513 ''x'']
     (compute_max_size [replicate 16 ''x'', replicate 32767 ''x'', replicate 32769 ''x'',
     replicate 33025 ''x'', replicate 32513 ''x''] - 1) = Inl undefined_behavior"
proof -
  have m: "compute_max_size [replicate 16 ''x'', replicate 32767 ''x'', replicate 32769 ''x'',
     replicate 33025 ''x'', replicate 32513 ''x''] = 18446744073709551600"
    by (simp add: compute_max_size_def)
  show ?thesis
    using wide_last by (simp add: entry_at_def precompute_valid [OF wide_valid] m wide_space)
qed

text \<open>A domain that repeats a symbol.\<close>

lemma space_aa:
  "precompute TYPE(64) [[''a'', ''a'']] = Inr \<lparr>divs = [1], mods = [2], max_size = 2\<rparr>"
  by (simp add: precompute_def compute_max_size_def)

lemma aa_at_0:
  "entry_at_stats [[''a'', ''a'']] 0 \<lparr>divs = [1], mods = [2], max_size = 2\<rparr> = Inr [''a'']"
  by (simp add: entry_at_stats_def entry_at_loop.simps digit_of_def double_of_ull_exact)

lemma aa_at_1:
  "entry_at_stats [[''a'', ''a'']] 1 \<lparr>divs = [1], mods = [2], max_size = 2\<rparr> = Inr [''a'']"
  by (simp add: entry_at_stats_def entry_at_loop.simps digit_of_def double_of_ull_exact)

lemma binary_total: "total_size (replicate k [''a'', ''b'']) = 2 ^ k"
  by (simp add: total_size_def numeral_2_eq_2)

text \<open>
  Domains of two symbols: 54 of them have total size \<open>2 ^ 54\<close>, and the indices
  \<open>2 ^ 53\<close> and \<open>2 ^ 53 + 1\<close> differ in the last digit only. At the last position
  the quotient is the index itself, and its conversion to \<^verbatim>\<open>double\<close> rounds
  \<open>2 ^ 53 + 1\<close> to \<open>2 ^ 53\<close>.
\<close>

lemma binary_valid:
  assumes "0 < k" and "k < 64"
  shows "valid_space TYPE(64) (replicate k [''a'', ''b''])"
proof -
  have "(2::nat) ^ k < 2 ^ 64"
    using assms(2) by (rule power_strict_increasing) simp
  with assms(1) show ?thesis
    by (auto simp: valid_space_def binary_total)
qed

lemma binary_place_value:
  "place_value (replicate k [''a'', ''b'']) i = 2 ^ (k - Suc i)"
  by (simp add: place_value_def numeral_2_eq_2)

text \<open>With 65 domains of two symbols the first place value is \<open>2 ^ 64\<close>, stored as 0.\<close>

lemma binary_place_value_0: "place_value (replicate (Suc k) [''a'', ''b'']) 0 = 2 ^ k"
  by (simp add: place_value_def numeral_2_eq_2)

lemma overflown_space_head:
  "divs (projr (precompute TYPE(64) (replicate 65 [''a'', ''b'']))) ! 0 = 0 \<and>
   length (divs (projr (precompute TYPE(64) (replicate 65 [''a'', ''b''])))) = 65 \<and>
   length (mods (projr (precompute TYPE(64) (replicate 65 [''a'', ''b''])))) = 65"
proof -
  have "place_value (replicate 65 [''a'', ''b'']) 0 = 2 ^ 64"
    using binary_place_value_0 [of 64] by simp
  then show ?thesis
    by (simp add: precompute_eq upt_conv_Cons)
qed

lemma pow2_div:
  fixes j m :: nat
  assumes "j \<le> m"
  shows "(2::nat) ^ m div 2 ^ (m - j) = 2 ^ j"
proof -
  have "(2::nat) ^ m = 2 ^ (m - j) * 2 ^ j"
    using assms by (simp flip: power_add)
  moreover have "((2::nat) ^ (m - j) * 2 ^ j) div 2 ^ (m - j) = 2 ^ j"
    by simp
  ultimately show ?thesis
    by (simp only:)
qed

lemma pow2_succ_div:
  fixes j m :: nat
  assumes "j < m"
  shows "((2::nat) ^ m + 1) div 2 ^ (m - j) = 2 ^ j"
proof -
  have e: "(2::nat) ^ m = 2 ^ j * 2 ^ (m - j)"
    using assms by (simp flip: power_add)
  have "0 < m - j"
    using assms by simp
  then have "(1::nat) < 2 ^ (m - j)"
    by (intro one_less_power) simp_all
  then have "(1::nat) div 2 ^ (m - j) = 0"
    by simp
  moreover have "((2::nat) ^ j * 2 ^ (m - j) + 1) div 2 ^ (m - j) = 2 ^ j + 1 div 2 ^ (m - j)"
    by (rule div_mult_self3) simp
  ultimately show ?thesis
    by (simp only: e add_0_right)
qed

lemma pow2_mod2: "(2::nat) ^ j mod 2 = (if j = 0 then 1 else 0)"
  by (cases j) simp_all

lemma double_of_ull_rounds_down: "double_of_ull 9007199254740993 = 9007199254740992"
proof -
  have "floorlog 2 (9007199254740993::nat) = 54"
    by (simp add: compute_floorlog)
  then show ?thesis
    by (simp add: double_of_ull_def Let_def)
qed

lemma binary54_digits:
  assumes j: "j < 54"
  shows "digit_of 9007199254740992 (space_of (replicate 54 [''a'', ''b''])) j =
           Inr (if j = 0 then 1 else 0)"
    and "digit_of 9007199254740993 (space_of (replicate 54 [''a'', ''b''])) j =
           Inr (if j = 0 then 1 else 0)"
proof -
  let ?cs = "replicate 54 [''a'', ''b'']"
  have v: "valid_space TYPE(64) ?cs"
    by (rule binary_valid) simp_all
  have jl: "j < length ?cs"
    using j by simp
  have pv: "place_value ?cs j = 2 ^ (53 - j)"
    by (simp add: binary_place_value)
  have len: "length (?cs ! j) = 2"
    using j by simp
  have u1: "unat (9007199254740992 :: u64) = 2 ^ 53"
    by simp
  have u2: "unat (9007199254740993 :: u64) = 2 ^ 53 + 1"
    by simp
  have "unat (9007199254740992 :: u64) \<le> 2 ^ 53"
    by simp
  with v jl have "digit_of 9007199254740992 (space_of ?cs) j =
      Inr (of_nat (digit ?cs (unat (9007199254740992 :: u64)) j))"
    by (rule digit_of_valid)
  moreover have "digit ?cs (unat (9007199254740992 :: u64)) j = (if j = 0 then 1 else 0)"
  proof -
    from j have "j \<le> 53" by simp
    then have "(2::nat) ^ 53 div 2 ^ (53 - j) = 2 ^ j"
      by (rule pow2_div)
    then have "digit ?cs (unat (9007199254740992 :: u64)) j = 2 ^ j mod 2"
      unfolding digit_def pv len u1 by simp
    then show ?thesis
      by (simp only: pow2_mod2)
  qed
  ultimately show "digit_of 9007199254740992 (space_of ?cs) j = Inr (if j = 0 then 1 else 0)"
    by simp
  show "digit_of 9007199254740993 (space_of ?cs) j = Inr (if j = 0 then 1 else 0)"
  proof (cases "j < 53")
    case True
    then have q: "unat (9007199254740993 :: u64) div place_value ?cs j = 2 ^ j"
      unfolding pv u2 by (rule pow2_succ_div)
    have "(2::nat) ^ j \<le> 2 ^ 53"
      using True by (intro power_increasing) simp_all
    with q have "unat (9007199254740993 :: u64) div place_value ?cs j \<le> 2 ^ 53"
      by simp
    with v jl have "digit_of 9007199254740993 (space_of ?cs) j =
        Inr (of_nat (digit ?cs (unat (9007199254740993 :: u64)) j))"
      by (rule digit_of_exact)
    moreover have "digit ?cs (unat (9007199254740993 :: u64)) j = (if j = 0 then 1 else 0)"
      unfolding digit_def q len by (rule pow2_mod2)
    ultimately show ?thesis
      by simp
  next
    case False
    with j have j53: "j = 53" by simp
    have p1: "(of_nat (place_value ?cs j) :: u64) = 1"
      by (simp add: j53 binary_place_value)
    have "double_of_ull (9007199254740993 div of_nat (place_value ?cs j)) < 2 ^ 64"
      by (simp add: p1 double_of_ull_rounds_down)
    with v jl have "digit_of 9007199254740993 (space_of ?cs) j =
        Inr (of_nat (double_of_ull (9007199254740993 div of_nat (place_value ?cs j)))
             mod of_nat (length (?cs ! j)))"
      by (rule digit_of_space)
    then show ?thesis
      unfolding p1 len by (simp add: double_of_ull_rounds_down j53)
  qed
qed

lemma binary54_decode:
  assumes "\<forall>j<54. digit_of n (space_of (replicate 54 [''a'', ''b''])) j = Inr (if j = 0 then 1 else 0)"
  shows "entry_at_stats (replicate 54 [''a'', ''b'']) n (space_of (replicate 54 [''a'', ''b'']))
    = Inr (''b'' # replicate 53 ''a'')"
proof -
  let ?cs = "replicate 54 [''a'', ''b'']"
  let ?dg = "\<lambda>j. if j = 0 then 1 else 0 :: u64"
  have "entry_at_loop ?cs n (space_of ?cs) 0 (replicate (length ?cs) []) =
      Inr (take 0 (replicate (length ?cs) []) @ map (\<lambda>j. ?cs ! j ! unat (?dg j)) [0..<length ?cs])"
    using assms by (intro entry_at_loop_digits) simp_all
  moreover have "map (\<lambda>j. ?cs ! j ! unat (?dg j)) [0..<length ?cs] = ''b'' # replicate 53 ''a''"
    by (rule nth_equalityI) (simp_all add: nth_Cons')
  ultimately show ?thesis
    by (simp add: entry_at_stats_def)
qed

lemma binary54_collision:
  "precompute TYPE(64) (replicate 54 [''a'', ''b'']) = Inr (space_of (replicate 54 [''a'', ''b'']))"
  "max_size (space_of (replicate 54 [''a'', ''b''])) = 18014398509481984"
  "entry_at_stats (replicate 54 [''a'', ''b'']) 9007199254740992 (space_of (replicate 54 [''a'', ''b'']))
    = Inr (''b'' # replicate 53 ''a'')"
  "entry_at_stats (replicate 54 [''a'', ''b'']) 9007199254740993 (space_of (replicate 54 [''a'', ''b'']))
    = Inr (''b'' # replicate 53 ''a'')"
proof -
  have v: "valid_space TYPE(64) (replicate 54 [''a'', ''b''])"
    by (rule binary_valid) simp_all
  then show "precompute TYPE(64) (replicate 54 [''a'', ''b'']) = Inr (space_of (replicate 54 [''a'', ''b'']))"
    by (rule precompute_valid)
  show "max_size (space_of (replicate 54 [''a'', ''b''])) = 18014398509481984"
    by (simp add: space_of_def binary_total)
  show "entry_at_stats (replicate 54 [''a'', ''b'']) 9007199254740992 (space_of (replicate 54 [''a'', ''b'']))
    = Inr (''b'' # replicate 53 ''a'')"
    by (rule binary54_decode) (simp add: binary54_digits(1))
  show "entry_at_stats (replicate 54 [''a'', ''b'']) 9007199254740993 (space_of (replicate 54 [''a'', ''b'']))
    = Inr (''b'' # replicate 53 ''a'')"
    by (rule binary54_decode) (simp add: binary54_digits(2))
qed

section \<open>C1: decoding is a bijection\<close>

text \<open>
  Claim C1, as amended. For every list of non-empty domains, each without repeated
  symbols, whose product of sizes fits \<^verbatim>\<open>unsigned long\<close> and is at most \<open>2 ^ 53\<close>,
  with the space that \<^verbatim>\<open>precompute\<close> returns: the private \<^verbatim>\<open>entry_at\<close>, restricted
  to the indices below \<open>max_size\<close>, is a bijection onto the Cartesian product of the
  domains. No two such indices decode to the same combination, and every
  combination is the result for exactly one of them.
\<close>

theorem decode_bijection:
  assumes "valid_space TYPE('l::len) cs" and "total_size cs \<le> 2 ^ 53"
    and "\<forall>d\<in>set cs. distinct d" and "precompute TYPE('l) cs = Inr ps"
  shows "bij_betw (\<lambda>n. entry_at_stats cs n ps) {n. n < max_size ps} (Inr ` set (product_lists cs))"
proof -
  note v = assms(1) and t = assms(2)
  from v assms(4) have ps: "ps = space_of cs"
    by (simp add: precompute_valid)
  note m = valid_max_size [OF v]
  have mx: "max_size ps = compute_max_size cs"
    by (simp add: ps space_of_def m(1))
  have dist: "distinct (product_lists cs)"
    using assms(3) by (rule distinct_product_lists)
  have len: "length (product_lists cs) = total_size cs"
    by (rule length_product_lists_total)
  have at: "unat n < total_size cs \<and> entry_at_stats cs n ps = Inr (product_lists cs ! unat n)"
    if "n < max_size ps" for n
  proof -
    from that have lt: "unat n < total_size cs"
      by (simp add: word_less_nat_alt mx m(2))
    with t have "unat n \<le> 2 ^ 53" by simp
    with v have "entry_at_stats cs n ps = Inr (decode cs (unat n))"
      unfolding ps by (rule entry_at_stats_valid)
    with lt show ?thesis by (simp add: product_lists_nth)
  qed
  have "inj_on (\<lambda>n. entry_at_stats cs n ps) {n. n < max_size ps}"
  proof (rule inj_onI)
    fix n k
    assume "n \<in> {n. n < max_size ps}" and "k \<in> {n. n < max_size ps}"
      and eq: "entry_at_stats cs n ps = entry_at_stats cs k ps"
    then have n: "n < max_size ps" and k: "k < max_size ps" by simp_all
    from at [OF n] at [OF k] eq
    have "product_lists cs ! unat n = product_lists cs ! unat k"
      and "unat n < length (product_lists cs)" and "unat k < length (product_lists cs)"
      by (simp_all add: len)
    with dist have "unat n = unat k"
      by (simp add: nth_eq_iff_index_eq)
    then show "n = k"
      by (simp add: word_unat_eq_iff)
  qed
  moreover have "(\<lambda>n. entry_at_stats cs n ps) ` {n. n < max_size ps} = Inr ` set (product_lists cs)"
  proof (rule set_eqI, rule iffI)
    fix r :: "error + string list"
    assume "r \<in> (\<lambda>n. entry_at_stats cs n ps) ` {n. n < max_size ps}"
    then obtain n where n: "n < max_size ps" and r: "r = entry_at_stats cs n ps"
      by auto
    from at [OF n] r have "r = Inr (product_lists cs ! unat n)"
      and "unat n < length (product_lists cs)"
      by (simp_all add: len)
    then show "r \<in> Inr ` set (product_lists cs)"
      by simp
  next
    fix r :: "error + string list"
    assume "r \<in> Inr ` set (product_lists cs)"
    then obtain i where i: "i < total_size cs" and r: "r = Inr (product_lists cs ! i)"
      by (auto simp: in_set_conv_nth len)
    from entry_at_valid(2,4) [OF v t i]
    have "entry_at_stats cs (of_nat i) ps = r" and "(of_nat i :: u64) < max_size ps"
      by (simp_all add: ps r)
    then show "r \<in> (\<lambda>n. entry_at_stats cs n ps) ` {n. n < max_size ps}"
      by blast
  qed
  ultimately show ?thesis
    by (simp add: bij_betw_def)
qed

text \<open>The theorem at two domains of two symbols: four indices, four combinations.\<close>

theorem decode_bijection_witness:
  "valid_space TYPE(64) [[''Thin'', ''Thick''], [''Marinara'', ''BBQ'']] \<and>
   total_size [[''Thin'', ''Thick''], [''Marinara'', ''BBQ'']] \<le> 2 ^ 53 \<and>
   distinct [''Thin'', ''Thick''] \<and> distinct [''Marinara'', ''BBQ''] \<and>
   precompute TYPE(64) [[''Thin'', ''Thick''], [''Marinara'', ''BBQ'']] =
     Inr \<lparr>divs = [2, 1], mods = [2, 2], max_size = 4\<rparr> \<and>
   bij_betw
     (\<lambda>n. entry_at_stats [[''Thin'', ''Thick''], [''Marinara'', ''BBQ'']] n
            \<lparr>divs = [2, 1], mods = [2, 2], max_size = 4\<rparr>)
     {n. n < 4}
     (Inr ` {[''Thin'', ''Marinara''], [''Thin'', ''BBQ''], [''Thick'', ''Marinara''], [''Thick'', ''BBQ'']})"
proof -
  let ?cs = "[[''Thin'', ''Thick''], [''Marinara'', ''BBQ'']]"
  let ?ps = "\<lparr>divs = [2, 1], mods = [2, 2], max_size = 4 :: u64\<rparr>"
  have p: "precompute TYPE(64) ?cs = Inr ?ps"
    using precompute_valid [OF pizza_valid] by (simp add: pizza_space)
  have t: "total_size ?cs \<le> 2 ^ 53"
    by (simp add: pizza_total)
  have d: "\<forall>d\<in>set ?cs. distinct d"
    by simp
  from decode_bijection [OF pizza_valid t d p] pizza_valid t p
  show ?thesis
    by (simp add: insert_commute)
qed

text \<open>
  Claim C1 as stated fails in three ways. A domain may repeat a symbol: for the
  domain \<open>[a, a]\<close> the indices 0 and 1 decode to the same combination. The total
  size may not fit: for 64 domains of two symbols it is stored as 0, so that no
  index is in range and no combination is reached. And above \<open>2 ^ 53\<close> the
  conversion to \<^verbatim>\<open>double\<close> inside \<^verbatim>\<open>floor\<close> rounds: for 54 domains of two symbols
  (distinct symbols, total size \<open>2 ^ 54\<close>) the indices \<open>2 ^ 53\<close> and \<open>2 ^ 53 + 1\<close>
  decode to the same combination.
\<close>

theorem decode_bijection_counterexample:
  "precompute TYPE(64) [[''a'', ''a'']] = Inr \<lparr>divs = [1], mods = [2], max_size = 2\<rparr> \<and>
   entry_at_stats [[''a'', ''a'']] 0 \<lparr>divs = [1], mods = [2], max_size = 2\<rparr> = Inr [''a''] \<and>
   entry_at_stats [[''a'', ''a'']] 1 \<lparr>divs = [1], mods = [2], max_size = 2\<rparr> = Inr [''a''] \<and>
   (0 :: u64) < 2 \<and> (1 :: u64) < 2 \<and> (0 :: u64) \<noteq> 1 \<and>
   map_sum id max_size (precompute TYPE(64) (replicate 64 [''a'', ''b''])) = Inr 0 \<and>
   replicate 64 ''a'' \<in> set (product_lists (replicate 64 [''a'', ''b''])) \<and>
   precompute TYPE(64) (replicate 54 [''a'', ''b'']) = Inr (space_of (replicate 54 [''a'', ''b''])) \<and>
   max_size (space_of (replicate 54 [''a'', ''b''])) = 18014398509481984 \<and>
   entry_at_stats (replicate 54 [''a'', ''b'']) 9007199254740992
     (space_of (replicate 54 [''a'', ''b''])) = Inr (''b'' # replicate 53 ''a'') \<and>
   entry_at_stats (replicate 54 [''a'', ''b'']) 9007199254740993
     (space_of (replicate 54 [''a'', ''b''])) = Inr (''b'' # replicate 53 ''a'') \<and>
   (9007199254740992 :: u64) < 18014398509481984 \<and>
   (9007199254740993 :: u64) < 18014398509481984 \<and>
   (9007199254740992 :: u64) \<noteq> 9007199254740993"
proof -
  have a: "precompute TYPE(64) [[''a'', ''a'']] = Inr \<lparr>divs = [1], mods = [2], max_size = 2\<rparr>"
    by (simp add: precompute_def compute_max_size_def)
  have b: "entry_at_stats [[''a'', ''a'']] 0 \<lparr>divs = [1], mods = [2], max_size = 2\<rparr> = Inr [''a'']"
    "entry_at_stats [[''a'', ''a'']] 1 \<lparr>divs = [1], mods = [2], max_size = 2\<rparr> = Inr [''a'']"
    by (simp_all add: entry_at_stats_def entry_at_loop.simps digit_of_def double_of_ull_exact)
  obtain ps where "precompute TYPE(64) (replicate 64 [''a'', ''b'']) = Inr ps"
    and "max_size ps = compute_max_size (replicate 64 [''a'', ''b''])"
    using precompute_Inr [of "replicate 64 [''a'', ''b'']", where 'l = 64] by auto
  then have c: "map_sum id max_size (precompute TYPE(64) (replicate 64 [''a'', ''b''])) = Inr 0"
    by (simp add: compute_max_size_eq binary_total)
  have d: "replicate 64 ''a'' \<in> set (product_lists (replicate 64 [''a'', ''b'']))"
    by (simp add: product_lists_set list_all2_conv_all_nth)
  have e: "(9007199254740992 :: u64) < 18014398509481984"
    "(9007199254740993 :: u64) < 18014398509481984"
    "(9007199254740992 :: u64) \<noteq> 9007199254740993"
    by simp_all
  from a b c d e binary54_collision show ?thesis
    by simp
qed

section \<open>C2: place values and total size\<close>

text \<open>
  Claim C2, as amended. For every non-empty domain list for which no stored value
  exceeds its type (\<open>no_overflow\<close>: every place value fits \<^verbatim>\<open>unsigned long\<close>, every
  domain size and the total size fit 64 bits), \<^verbatim>\<open>precompute\<close> returns a space with
  one modulus and one place value for each domain; \<open>mods ! i\<close> is the size of domain
  \<open>i\<close>, \<open>divs ! i\<close> is the product of the sizes of the domains at the positions
  greater than \<open>i\<close> (1 at the last position), \<open>max_size\<close> is the product of all
  sizes, and it equals \<open>divs ! 0 * mods ! 0\<close>.
\<close>

theorem precompute_place_values:
  assumes "cs \<noteq> []" and "no_overflow TYPE('l::len) cs"
  shows "\<exists>ps. precompute TYPE('l) cs = Inr ps \<and>
           length (divs ps) = length cs \<and> length (mods ps) = length cs \<and>
           (\<forall>i<length cs. unat (mods ps ! i) = length (cs ! i) \<and>
                          unat (divs ps ! i) = place_value cs i) \<and>
           place_value cs (length cs - 1) = 1 \<and>
           unat (max_size ps) = total_size cs \<and>
           total_size cs = place_value cs 0 * length (cs ! 0) \<and>
           max_size ps = divs ps ! 0 * mods ps ! 0"
proof -
  from assms(2) have l: "LENGTH('l) \<le> 64"
    and len: "\<forall>d\<in>set cs. length d < 2 ^ 64"
    and pv: "\<forall>i<length cs. place_value cs i < 2 ^ LENGTH('l)"
    and t: "total_size cs < 2 ^ 64"
    by (simp_all add: no_overflow_def)
  have le: "(2::nat) ^ LENGTH('l) \<le> 2 ^ 64"
    using l by (rule power_increasing) simp
  have ps: "precompute TYPE('l) cs = Inr (space_of cs)"
    using assms by (rule precompute_no_overflow)
  have nth: "unat (mods (space_of cs) ! i) = length (cs ! i) \<and>
             unat (divs (space_of cs) ! i) = place_value cs i" if i: "i < length cs" for i
  proof -
    from i len have "length (cs ! i) < 2 ^ 64" by simp
    moreover from i pv le have "place_value cs i < 2 ^ 64"
      by (meson less_le_trans)
    ultimately show ?thesis
      using i by (simp add: space_of_def u64_of_nat_inverse)
  qed
  have last: "place_value cs (length cs - 1) = 1"
    using assms(1) by (simp add: place_value_def)
  have split: "total_size cs = place_value cs 0 * length (cs ! 0)"
    using assms(1) total_size_split [of 0 cs] by (simp add: total_size_def mult.commute)
  have "max_size (space_of cs) = of_nat (place_value cs 0 * length (cs ! 0))"
    using split by (simp add: space_of_def)
  also have "\<dots> = divs (space_of cs) ! 0 * mods (space_of cs) ! 0"
    using assms(1) by (simp add: space_of_def nth_map [of 0 cs] upt_conv_Cons)
  finally have prod: "max_size (space_of cs) = divs (space_of cs) ! 0 * mods (space_of cs) ! 0" .
  have "unat (max_size (space_of cs)) = total_size cs"
    using t by (simp add: space_of_def u64_of_nat_inverse)
  with ps nth last split prod show ?thesis
    by (simp add: space_of_def)
qed

text \<open>The theorem at two domains of two symbols, with a 32-bit \<^verbatim>\<open>unsigned long\<close>.\<close>

theorem precompute_place_values_witness:
  "[[''Thin'', ''Thick''], [''Marinara'', ''BBQ'']] \<noteq> [] \<and>
   no_overflow TYPE(32) [[''Thin'', ''Thick''], [''Marinara'', ''BBQ'']] \<and>
   (\<exists>ps. precompute TYPE(32) [[''Thin'', ''Thick''], [''Marinara'', ''BBQ'']] = Inr ps \<and>
      unat (mods ps ! 0) = 2 \<and> unat (mods ps ! 1) = 2 \<and>
      unat (divs ps ! 0) = 2 \<and> unat (divs ps ! 1) = 1 \<and>
      unat (max_size ps) = 4 \<and> max_size ps = divs ps ! 0 * mods ps ! 0)"
proof -
  let ?cs = "[[''Thin'', ''Thick''], [''Marinara'', ''BBQ'']]"
  have no: "no_overflow TYPE(32) ?cs"
    by (auto simp: no_overflow_def place_value_def total_size_def less_Suc_eq)
  have pv: "place_value ?cs 0 = 2" "place_value ?cs 1 = 1" "total_size ?cs = 4"
    by (simp_all add: place_value_def total_size_def)
  from precompute_place_values [of ?cs, where 'l = 32, OF _ no] pv
  have "\<exists>ps. precompute TYPE(32) ?cs = Inr ps \<and>
      unat (mods ps ! 0) = 2 \<and> unat (mods ps ! 1) = 2 \<and>
      unat (divs ps ! 0) = 2 \<and> unat (divs ps ! 1) = 1 \<and>
      unat (max_size ps) = 4 \<and> max_size ps = divs ps ! 0 * mods ps ! 0"
    by (auto simp: less_Suc_eq)
  with no show ?thesis by simp
qed

text \<open>
  Claim C2 as stated, for every non-empty domain list, fails: for 64 domains of two
  symbols the product of the sizes is \<open>2 ^ 64\<close>, and the total size that
  \<^verbatim>\<open>precompute\<close> stores is 0.
\<close>

theorem precompute_place_values_counterexample:
  "map_sum id max_size (precompute TYPE(64) (replicate 64 [''a'', ''b''])) = Inr 0 \<and>
   total_size (replicate 64 [''a'', ''b'']) = 2 ^ 64"
proof -
  obtain ps where "precompute TYPE(64) (replicate 64 [''a'', ''b'']) = Inr ps"
    and "max_size ps = compute_max_size (replicate 64 [''a'', ''b''])"
    using precompute_Inr [of "replicate 64 [''a'', ''b'']", where 'l = 64] by auto
  then show ?thesis
    by (simp add: compute_max_size_eq binary_total)
qed

section \<open>C3: the values of the sampler\<close>

text \<open>
  Claim C3 says that for every \<open>k \<le> N\<close> a sampler created with \<open>(k, N)\<close> returns
  exactly \<open>k\<close> strictly increasing values and then fails. The code does not do so
  for \<open>k = 1\<close> and \<open>N = 2 ^ 31\<close>: the first call computes \<open>range_size = 2 ^ 31\<close>
  and builds \<^verbatim>\<open>uniform_int_distribution<>\<close>, a distribution over \<^verbatim>\<open>int\<close>, with the
  bounds 0 and \<open>(int) range_size = - 2 ^ 31\<close>. An upper bound below the lower bound
  is outside the distribution's contract, so the call has no defined result,
  whatever the engine produces. \<^verbatim>\<open>generate_samples\<close> reaches that call for 31
  domains of two symbols (total size \<open>2 ^ 31\<close>) and sample size 1.
\<close>

theorem sampler_wide_range_undefined:
  "RandomIterator_next (new_RandomIterator 1 2147483648) 0 = Inl undefined_behavior \<and>
   generate_samples TYPE(64) (replicate 31 [''a'', ''b'']) 1 (draws_of [0]) =
     Inl undefined_behavior"
proof -
  have nx: "RandomIterator_next (new_RandomIterator 1 2147483648) 0 = Inl undefined_behavior"
    by (simp add: RandomIterator_next_def new_RandomIterator_def word_sless_alt)
  have "valid_space TYPE(64) (replicate 31 [''a'', ''b''])"
    by (rule binary_valid) simp_all
  then have "precompute TYPE(64) (replicate 31 [''a'', ''b'']) =
      Inr (space_of (replicate 31 [''a'', ''b'']))"
    by (rule precompute_valid)
  moreover have "max_size (space_of (replicate 31 [''a'', ''b''])) = 2147483648"
    by (simp add: space_of_def binary_total)
  moreover from nx
  have "RandomIterator_next \<lparr>ri_n = 2147483648, last_k = 0, num_left = 1\<rparr> 0 =
      Inl undefined_behavior"
    by (simp add: new_RandomIterator_def)
  ultimately have "generate_samples TYPE(64) (replicate 31 [''a'', ''b'']) 1 (draws_of [0]) =
      Inl undefined_behavior"
    by (simp add: generate_samples_def vector_max_size_def sample_loop.simps [of _ _ _ _ 0] has_next_def
        draws_of_def new_RandomIterator_def)
  with nx show ?thesis
    by simp
qed

section \<open>C4: the range of the sampler\<close>

text \<open>
  Claim C4 says that no value returned by the sampler exceeds \<open>N\<close>. With \<open>k = 1\<close>
  and \<open>N = 1\<close> the only call draws from \<open>[0, 1]\<close>; when the distribution returns 1
  (a value it can return), \<^verbatim>\<open>next()\<close> returns \<open>1 + 0 + 1 = 2\<close>, which exceeds \<open>N\<close>.
\<close>

theorem sampler_value_exceeds_max:
  "rnd_returns (range_size_of (new_RandomIterator 1 1)) 1 \<and>
   RandomIterator_next (new_RandomIterator 1 1) 1 =
     Inr (2, \<lparr>ri_n = 1, last_k = 2, num_left = 0\<rparr>)"
  by (simp add: RandomIterator_next_def new_RandomIterator_def word_sless_alt rnd_returns_def
      range_size_of_def word_sle_eq)

section \<open>C5: sampled combinations\<close>

text \<open>
  Claim C5 says that \<^verbatim>\<open>generate_samples\<close> returns pairwise distinct combinations.
  For the single domain \<open>[a, b, c]\<close> (total size 3) and sample size 2, when the
  distribution returns 0 and then 2 (both within the ranges \<open>[0, 1]\<close> and \<open>[0, 2]\<close>
  of the two calls), the sampler returns the indices 1 and 4, and both decode to
  the combination \<open>[b]\<close>.
\<close>

theorem generate_samples_duplicate:
  "draws_ok (new_RandomIterator 2 3) [0, 2] \<and>
   next_calls (new_RandomIterator 2 3) [0, 2] = Inr ([1, 4], \<lparr>ri_n = 3, last_k = 4, num_left = 0\<rparr>) \<and>
   generate_samples TYPE(64) [[''a'', ''b'', ''c'']] 2 (draws_of [0, 2]) = Inr [[''b''], [''b'']]"
  by (simp add: generate_samples_def space_abc sample_loop.simps has_next_def
      RandomIterator_next_def new_RandomIterator_def word_sless_alt draws_of_def abc_at_1 abc_at_4
      rnd_returns_def range_size_of_def word_sle_eq vector_max_size_def)

section \<open>C6: sampling the whole space\<close>

text \<open>
  Claim C6, as amended. For every list of non-empty domains whose product of sizes
  fits \<^verbatim>\<open>unsigned long\<close> and is at most \<open>2 ^ 53\<close>, \<^verbatim>\<open>generate_samples\<close> with a sample
  size equal to the total size returns the Cartesian product of the domains in
  index order, the element at position \<open>i\<close> being what \<^verbatim>\<open>entry_at\<close> returns for
  index \<open>i\<close>; when no domain repeats a symbol, every combination occurs once. The
  result does not depend on \<open>draws\<close>: no sampler is involved.
\<close>

theorem generate_samples_full_space:
  assumes "valid_space TYPE('l::len) cs" and "total_size cs \<le> 2 ^ 53"
  shows "generate_samples TYPE('l) cs (compute_max_size cs) draws = Inr (product_lists cs) \<and>
         length (product_lists cs) = unat (compute_max_size cs) \<and>
         (\<forall>i<unat (compute_max_size cs).
            entry_at TYPE('l) cs (of_nat i) = Inr (product_lists cs ! i)) \<and>
         ((\<forall>d\<in>set cs. distinct d) \<longrightarrow> distinct (product_lists cs))"
proof -
  note v = assms(1) and t = assms(2)
  note m = valid_max_size [OF v]
  from v have ne: "length cs \<noteq> 0"
    by (simp add: valid_space_def)
  have mxs: "max_size (space_of cs) = compute_max_size cs"
    by (simp add: space_of_def m(1))
  have "unat (compute_max_size cs) \<le> 2 ^ 53"
    using t by (simp add: m(2))
  with v have "full_loop cs (space_of cs) 0 (compute_max_size cs) [] =
      Inr ([] @ map (decode cs) [unat (0::u64)..<unat (compute_max_size cs)])"
    by (rule full_loop_valid) simp
  then have "full_loop cs (space_of cs) 0 (compute_max_size cs) [] = Inr (product_lists cs)"
    by (simp add: m(2) product_lists_decode)
  moreover have "\<not> vector_max_size < unat (compute_max_size cs)"
    using t by (simp add: m(2) vector_max_size_def)
  ultimately have "generate_samples TYPE('l) cs (compute_max_size cs) draws = Inr (product_lists cs)"
    using ne by (simp add: generate_samples_def precompute_valid [OF v] mxs)
  moreover have "entry_at TYPE('l) cs (of_nat i) = Inr (product_lists cs ! i)"
    if "i < unat (compute_max_size cs)" for i
    using v t that by (intro entry_at_valid(1)) (simp_all add: m(2))
  moreover have "distinct (product_lists cs)" if "\<forall>d\<in>set cs. distinct d"
    using that by (rule distinct_product_lists)
  ultimately show ?thesis
    by (simp add: length_product_lists_total m(2))
qed

text \<open>The theorem at two domains of two symbols: the four combinations in order.\<close>

theorem generate_samples_full_space_witness:
  "valid_space TYPE(64) [[''Thin'', ''Thick''], [''Marinara'', ''BBQ'']] \<and>
   total_size [[''Thin'', ''Thick''], [''Marinara'', ''BBQ'']] \<le> 2 ^ 53 \<and>
   distinct [''Thin'', ''Thick''] \<and> distinct [''Marinara'', ''BBQ''] \<and>
   generate_samples TYPE(64) [[''Thin'', ''Thick''], [''Marinara'', ''BBQ'']] 4 (draws_of []) =
     Inr [[''Thin'', ''Marinara''], [''Thin'', ''BBQ''], [''Thick'', ''Marinara''], [''Thick'', ''BBQ'']] \<and>
   distinct (product_lists [[''Thin'', ''Thick''], [''Marinara'', ''BBQ'']])"
proof -
  let ?cs = "[[''Thin'', ''Thick''], [''Marinara'', ''BBQ'']]"
  have m: "compute_max_size ?cs = 4"
    by (simp add: compute_max_size_def)
  have t: "total_size ?cs \<le> 2 ^ 53"
    by (simp add: pizza_total)
  from generate_samples_full_space [OF pizza_valid t, of "draws_of []"] pizza_valid t
  show ?thesis
    by (simp add: m)
qed

text \<open>
  Claim C6 as stated, for every list of non-empty domains, fails: for 64 domains of
  two symbols the stored total size is 0, and \<^verbatim>\<open>generate_samples\<close> with that sample
  size returns no combination at all, although the product is not empty. And for
  the domain \<open>[a, a]\<close>, of total size 2, the combination \<open>[a]\<close> is returned twice.
\<close>

theorem generate_samples_full_space_counterexample:
  "generate_samples TYPE(64) (replicate 64 [''a'', ''b''])
     (compute_max_size (replicate 64 [''a'', ''b''])) (draws_of []) = Inr [] \<and>
   replicate 64 ''a'' \<in> set (product_lists (replicate 64 [''a'', ''b''])) \<and>
   generate_samples TYPE(64) [[''a'', ''a'']] (compute_max_size [[''a'', ''a'']]) (draws_of []) =
     Inr [[''a''], [''a'']]"
proof -
  have aa: "generate_samples TYPE(64) [[''a'', ''a'']] (compute_max_size [[''a'', ''a'']])
      (draws_of []) = Inr [[''a''], [''a'']]"
    by (simp add: generate_samples_def vector_max_size_def space_aa full_loop.simps aa_at_0 aa_at_1
        compute_max_size_def)
  obtain ps where "precompute TYPE(64) (replicate 64 [''a'', ''b'']) = Inr ps"
    and "max_size ps = compute_max_size (replicate 64 [''a'', ''b''])"
    using precompute_Inr [of "replicate 64 [''a'', ''b'']", where 'l = 64] by auto
  then have "generate_samples TYPE(64) (replicate 64 [''a'', ''b''])
     (compute_max_size (replicate 64 [''a'', ''b''])) (draws_of []) = Inr []"
    by (simp add: generate_samples_def vector_max_size_def compute_max_size_eq binary_total
        full_loop.simps [of _ _ 0 0])
  moreover have "replicate 64 ''a'' \<in> set (product_lists (replicate 64 [''a'', ''b'']))"
    by (simp add: product_lists_set list_all2_conv_all_nth)
  ultimately show ?thesis using aa by simp
qed

section \<open>C7: sample sizes above the total size\<close>

text \<open>
  Claim C7 says that a sampler cannot be created with \<open>k > N\<close> and that
  \<^verbatim>\<open>generate_samples\<close> rejects a sample size above the total size with
  \<^verbatim>\<open>invalid_sample_size_error\<close>. The constructor checks nothing, and nothing calls
  \<^verbatim>\<open>sample_size_valid\<close>: for the single domain \<open>[a, b]\<close> (total size 2) and sample
  size 3 the iterator is created with three values left, and \<^verbatim>\<open>generate_samples\<close>
  returns three combinations (the indices 1, 2 and 3) without any error.
\<close>

theorem generate_samples_oversized_accepted:
  "new_RandomIterator 3 2 = \<lparr>ri_n = 2, last_k = 0, num_left = 3\<rparr> \<and>
   has_next (new_RandomIterator 3 2) \<and>
   draws_ok (new_RandomIterator 3 2) [0, 0, 0] \<and>
   generate_samples TYPE(64) [[''a'', ''b'']] 3 (draws_of [0, 0, 0]) =
     Inr [[''b''], [''a''], [''b'']]"
  by (simp add: generate_samples_def vector_max_size_def space_ab sample_loop.simps has_next_def
      RandomIterator_next_def new_RandomIterator_def word_sless_alt draws_of_def
      ab_at_1 ab_at_2 ab_at_3 rnd_returns_def range_size_of_def word_sle_eq)

section \<open>C8: errors of space construction\<close>

text \<open>
  Claim C8, as amended. \<^verbatim>\<open>precompute\<close> fails exactly when the domain list has no
  entries, with \<^verbatim>\<open>empty_answers_error\<close>, and then produces no space (the public
  \<^verbatim>\<open>entry_at\<close> passes that error on; \<^verbatim>\<open>generate_samples\<close> tests the list first and
  fails with \<^verbatim>\<open>empty_list_error\<close>). There is no check of the single domains: for
  every non-empty list \<^verbatim>\<open>precompute\<close> returns a space, and when some domain is
  empty the total size of that space is 0.
\<close>

theorem precompute_errors:
  "(cs = [] \<longrightarrow>
      precompute TYPE('l::len) cs = Inl empty_answers_error \<and>
      entry_at TYPE('l) cs index = Inl empty_answers_error \<and>
      generate_samples TYPE('l) cs sample_size draws = Inl empty_list_error) \<and>
   (cs \<noteq> [] \<longrightarrow>
      (\<exists>ps. precompute TYPE('l) cs = Inr ps \<and> max_size ps = compute_max_size cs \<and>
            ([] \<in> set cs \<longrightarrow> max_size ps = 0)))"
proof (cases "cs = []")
  case True
  then show ?thesis
    by (simp add: precompute_def entry_at_def generate_samples_def)
next
  case False
  then obtain ps where ps: "precompute TYPE('l) cs = Inr ps" "max_size ps = compute_max_size cs"
    using precompute_Inr by blast
  have "max_size ps = 0" if "[] \<in> set cs"
    using that ps(2) by (simp add: compute_max_size_eq total_size_empty_domain)
  with False ps show ?thesis
    by simp
qed

text \<open>The theorem at the empty list and at a list whose second domain is empty.\<close>

theorem precompute_errors_witness:
  "precompute TYPE(64) [] = Inl empty_answers_error \<and>
   [[''a''], []] \<noteq> [] \<and> [] \<in> set [[''a''], []] \<and>
   (\<exists>ps. precompute TYPE(64) [[''a''], []] = Inr ps \<and> max_size ps = 0)"
  using precompute_errors [where 'l = 64 and cs = "[]"]
    precompute_errors [where 'l = 64 and cs = "[[''a''], []]"]
  by auto

text \<open>
  Claim C8 as stated fails: for the list \<open>[[a], []]\<close>, whose second domain is empty,
  \<^verbatim>\<open>precompute\<close> raises no error and returns a space; and the error for the empty
  list is \<^verbatim>\<open>empty_answers_error\<close>, not \<^verbatim>\<open>empty_list_error\<close>.
\<close>

theorem precompute_errors_counterexample:
  "precompute TYPE(64) [[''a''], []] = Inr \<lparr>divs = [0, 1], mods = [1, 0], max_size = 0\<rparr> \<and>
   precompute TYPE(64) [] = Inl empty_answers_error \<and>
   empty_answers_error \<noteq> empty_list_error"
  by (simp add: precompute_def compute_max_size_def numeral_2_eq_2)

section \<open>C9: the range check of the public entry_at\<close>

text \<open>
  Claim C9, as amended. For every non-empty domain list the public \<^verbatim>\<open>entry_at\<close>
  fails with \<^verbatim>\<open>index_error\<close> exactly when the index is greater than or equal to the
  total size that \<^verbatim>\<open>compute_max_size\<close> returns. The index is unsigned, so no
  negative index reaches the function, and the test comes before the decoding:
  whatever the decoding of such an index would do, the result is \<^verbatim>\<open>index_error\<close>.
  When moreover every domain is non-empty and the product of the sizes fits
  \<^verbatim>\<open>unsigned long\<close>, index 0 is decoded, to the first combination; when the product
  is at most \<open>2 ^ 64 - 2 ^ 10\<close>, the index total size minus 1 is decoded too, to a
  combination of symbols of the domains, which is the last combination of the
  product when the product is at most \<open>2 ^ 53\<close>.
\<close>

theorem entry_at_index_error:
  assumes "cs \<noteq> []"
  shows "(entry_at TYPE('l::len) cs index = Inl index_error \<longleftrightarrow> compute_max_size cs \<le> index) \<and>
         (valid_space TYPE('l) cs \<longrightarrow> entry_at TYPE('l) cs 0 = Inr (decode cs 0)) \<and>
         (valid_space TYPE('l) cs \<and> total_size cs \<le> 2 ^ 64 - 2 ^ 10 \<longrightarrow>
            (\<exists>c. entry_at TYPE('l) cs (compute_max_size cs - 1) = Inr c \<and> length c = length cs \<and>
                 (\<forall>i<length cs. c ! i \<in> set (cs ! i)))) \<and>
         (valid_space TYPE('l) cs \<and> total_size cs \<le> 2 ^ 53 \<longrightarrow>
            entry_at TYPE('l) cs (compute_max_size cs - 1) = Inr (decode cs (total_size cs - 1)))"
proof (intro conjI impI)
  from assms obtain ps where ps: "precompute TYPE('l) cs = Inr ps"
    and mx: "max_size ps = compute_max_size cs"
    using precompute_Inr by blast
  show "entry_at TYPE('l) cs index = Inl index_error \<longleftrightarrow> compute_max_size cs \<le> index"
  proof (cases "compute_max_size cs \<le> index")
    case True
    then show ?thesis by (simp add: entry_at_def ps mx)
  next
    case False
    then have "entry_at TYPE('l) cs index = entry_at_stats cs index ps"
      by (simp add: entry_at_def ps mx)
    moreover have "entry_at_stats cs index ps \<noteq> Inl index_error"
      using entry_at_stats_error [of cs index ps index_error] by auto
    ultimately show ?thesis using False by simp
  qed
next
  assume v: "valid_space TYPE('l) cs"
  note m = valid_max_size [OF v]
  have sp: "precompute TYPE('l) cs = Inr (space_of cs)"
    using v by (rule precompute_valid)
  have mxs: "max_size (space_of cs) = compute_max_size cs"
    by (simp add: space_of_def m(1))
  have nz: "compute_max_size cs \<noteq> 0"
    using m(2,3) by (metis less_numeral_extra(3) unat_0)
  then have lt0: "\<not> compute_max_size cs \<le> 0"
    by simp
  have "unat (0::u64) \<le> 2 ^ 53" by simp
  with v have "entry_at_stats cs 0 (space_of cs) = Inr (decode cs (unat (0::u64)))"
    by (rule entry_at_stats_valid)
  then show "entry_at TYPE('l) cs 0 = Inr (decode cs 0)"
    using lt0 by (simp add: entry_at_def sp mxs)
next
  assume a: "valid_space TYPE('l) cs \<and> total_size cs \<le> 2 ^ 64 - 2 ^ 10"
  then have v: "valid_space TYPE('l) cs" and t: "total_size cs \<le> 2 ^ 64 - 2 ^ 10"
    by simp_all
  note m = valid_max_size [OF v]
  have sp: "precompute TYPE('l) cs = Inr (space_of cs)"
    using v by (rule precompute_valid)
  have mxs: "max_size (space_of cs) = compute_max_size cs"
    by (simp add: space_of_def m(1))
  have nz: "compute_max_size cs \<noteq> 0"
    using m(2,3) by (metis less_numeral_extra(3) unat_0)
  have u1: "unat (compute_max_size cs - 1) = total_size cs - 1"
    using nz m(2) by (simp add: unat_minus_one)
  have lt1: "\<not> compute_max_size cs \<le> compute_max_size cs - 1"
    using m(3) by (simp add: word_le_nat_alt m(2) u1)
  have "unat (compute_max_size cs - 1) < 2 ^ 64 - 2 ^ 10"
    using t m(3) unfolding u1 by linarith
  with v have "\<exists>c. entry_at_stats cs (compute_max_size cs - 1) (space_of cs) = Inr c \<and>
      length c = length cs \<and> (\<forall>i<length cs. c ! i \<in> set (cs ! i))"
    by (rule entry_at_stats_defined)
  then show "\<exists>c. entry_at TYPE('l) cs (compute_max_size cs - 1) = Inr c \<and> length c = length cs \<and>
      (\<forall>i<length cs. c ! i \<in> set (cs ! i))"
    using lt1 by (simp add: entry_at_def sp mxs)
next
  assume a: "valid_space TYPE('l) cs \<and> total_size cs \<le> 2 ^ 53"
  then have v: "valid_space TYPE('l) cs" and t: "total_size cs \<le> 2 ^ 53" by simp_all
  note m = valid_max_size [OF v]
  have sp: "precompute TYPE('l) cs = Inr (space_of cs)"
    using v by (rule precompute_valid)
  have mxs: "max_size (space_of cs) = compute_max_size cs"
    by (simp add: space_of_def m(1))
  have nz: "compute_max_size cs \<noteq> 0"
    using m(2,3) by (metis less_numeral_extra(3) unat_0)
  have u1: "unat (compute_max_size cs - 1) = total_size cs - 1"
    using nz m(2) by (simp add: unat_minus_one)
  have lt1: "\<not> compute_max_size cs \<le> compute_max_size cs - 1"
    using m(3) by (simp add: word_le_nat_alt m(2) u1)
  have "unat (compute_max_size cs - 1) \<le> 2 ^ 53"
    using t u1 by simp
  with v have "entry_at_stats cs (compute_max_size cs - 1) (space_of cs) =
      Inr (decode cs (unat (compute_max_size cs - 1)))"
    by (rule entry_at_stats_valid)
  then show "entry_at TYPE('l) cs (compute_max_size cs - 1) = Inr (decode cs (total_size cs - 1))"
    using lt1 u1 by (simp add: entry_at_def sp mxs)
qed

text \<open>
  The theorem at the two domains of two symbols (total size 4, indices 4, 0 and 3)
  and at 54 domains of two symbols, whose total size is above \<open>2 ^ 53\<close>.
\<close>

theorem entry_at_index_error_witness:
  "[[''Thin'', ''Thick''], [''Marinara'', ''BBQ'']] \<noteq> [] \<and>
   valid_space TYPE(64) [[''Thin'', ''Thick''], [''Marinara'', ''BBQ'']] \<and>
   total_size [[''Thin'', ''Thick''], [''Marinara'', ''BBQ'']] \<le> 2 ^ 64 - 2 ^ 10 \<and>
   total_size [[''Thin'', ''Thick''], [''Marinara'', ''BBQ'']] \<le> 2 ^ 53 \<and>
   entry_at TYPE(64) [[''Thin'', ''Thick''], [''Marinara'', ''BBQ'']] 4 = Inl index_error \<and>
   entry_at TYPE(64) [[''Thin'', ''Thick''], [''Marinara'', ''BBQ'']] 0 = Inr [''Thin'', ''Marinara''] \<and>
   entry_at TYPE(64) [[''Thin'', ''Thick''], [''Marinara'', ''BBQ'']] 3 = Inr [''Thick'', ''BBQ''] \<and>
   valid_space TYPE(64) (replicate 54 [''a'', ''b'']) \<and>
   total_size (replicate 54 [''a'', ''b'']) \<le> 2 ^ 64 - 2 ^ 10 \<and>
   (\<exists>c. entry_at TYPE(64) (replicate 54 [''a'', ''b''])
          (compute_max_size (replicate 54 [''a'', ''b'']) - 1) = Inr c \<and> length c = 54)"
proof -
  let ?cs = "[[''Thin'', ''Thick''], [''Marinara'', ''BBQ'']]"
  let ?b = "replicate 54 [''a'', ''b'']"
  have m: "compute_max_size ?cs = 4"
    by (simp add: compute_max_size_def)
  have v: "valid_space TYPE(64) ?b"
    by (rule binary_valid) simp_all
  have t: "total_size ?b \<le> 2 ^ 64 - 2 ^ 10"
    by (simp add: binary_total)
  have ne: "?b \<noteq> []"
    by simp
  from entry_at_index_error [OF ne, where 'l = 64 and index = 0] v t
  have "\<exists>c. entry_at TYPE(64) ?b (compute_max_size ?b - 1) = Inr c \<and> length c = 54"
    by auto
  with entry_at_index_error [of ?cs, where 'l = 64 and index = 4] pizza_valid v t
  show ?thesis
    by (simp add: m pizza_total pizza_decode)
qed

text \<open>
  Claim C9 as stated, for every list of non-empty domains, fails: for 64 domains of
  two symbols the stored total size is 0, and index 0 is rejected. And for the five
  domains whose product of sizes is \<open>2 ^ 64 - 16\<close>, which fits, the last index is
  accepted by the test but its decoding converts the \<^verbatim>\<open>double\<close> \<open>2 ^ 64\<close> to
  \<^verbatim>\<open>unsigned long long\<close>, which is undefined.
\<close>

theorem entry_at_index_error_counterexample:
  "entry_at TYPE(64) (replicate 64 [''a'', ''b'']) 0 = Inl index_error \<and>
   valid_space TYPE(64) [replicate 16 ''x'', replicate 32767 ''x'', replicate 32769 ''x'',
      replicate 33025 ''x'', replicate 32513 ''x''] \<and>
   entry_at TYPE(64) [replicate 16 ''x'', replicate 32767 ''x'', replicate 32769 ''x'',
      replicate 33025 ''x'', replicate 32513 ''x'']
     (compute_max_size [replicate 16 ''x'', replicate 32767 ''x'', replicate 32769 ''x'',
      replicate 33025 ''x'', replicate 32513 ''x''] - 1) = Inl undefined_behavior"
proof -
  obtain ps where "precompute TYPE(64) (replicate 64 [''a'', ''b'']) = Inr ps"
    and "max_size ps = compute_max_size (replicate 64 [''a'', ''b''])"
    using precompute_Inr [of "replicate 64 [''a'', ''b'']", where 'l = 64] by auto
  then have "entry_at TYPE(64) (replicate 64 [''a'', ''b'']) 0 = Inl index_error"
    by (simp add: entry_at_def compute_max_size_eq binary_total)
  with wide_valid wide_entry_at show ?thesis
    by simp
qed

section \<open>C10: the private entry_at beyond the total size\<close>

text \<open>
  Claim C10, as amended. For every list of non-empty domains whose product of sizes
  fits \<^verbatim>\<open>unsigned long\<close>, with the space that \<^verbatim>\<open>precompute\<close> returns: for every index
  \<open>n\<close> below \<open>2 ^ 64 - 2 ^ 10\<close>, also beyond the total size, every digit is computed
  and is less than the size of its domain, so the private \<^verbatim>\<open>entry_at\<close> returns a
  combination; and for every index \<open>n\<close> up to \<open>2 ^ 53\<close> it returns the same
  combination for \<open>n mod max_size\<close>.
\<close>

theorem entry_at_stats_periodic:
  assumes "valid_space TYPE('l::len) cs" and "precompute TYPE('l) cs = Inr ps"
  shows "(unat n < 2 ^ 64 - 2 ^ 10 \<longrightarrow>
            (\<forall>i<length cs. \<exists>d. digit_of n ps i = Inr d \<and> unat d < length (cs ! i)) \<and>
            (\<exists>c. entry_at_stats cs n ps = Inr c \<and> length c = length cs \<and>
                 (\<forall>i<length cs. c ! i \<in> set (cs ! i)))) \<and>
         (unat n \<le> 2 ^ 53 \<longrightarrow>
            entry_at_stats cs (n mod max_size ps) ps = entry_at_stats cs n ps)"
proof (intro conjI impI)
  note v = assms(1)
  from v assms(2) have ps: "ps = space_of cs"
    by (simp add: precompute_valid)
  {
    assume n: "unat n < 2 ^ 64 - 2 ^ 10"
    show "\<forall>i<length cs. \<exists>d. digit_of n ps i = Inr d \<and> unat d < length (cs ! i)"
    proof (intro allI impI)
      fix i
      assume i: "i < length cs"
      have "unat n div place_value cs i \<le> unat n"
        by (rule div_le_dividend)
      with n have "unat n div place_value cs i < 2 ^ 64 - 2 ^ 10"
        by linarith
      with v i show "\<exists>d. digit_of n ps i = Inr d \<and> unat d < length (cs ! i)"
        unfolding ps by (rule digit_of_defined)
    qed
    from v n show "\<exists>c. entry_at_stats cs n ps = Inr c \<and> length c = length cs \<and>
        (\<forall>i<length cs. c ! i \<in> set (cs ! i))"
      unfolding ps by (rule entry_at_stats_defined)
  }
  {
    assume n: "unat n \<le> 2 ^ 53"
    note m = valid_max_size [OF v]
    have e: "entry_at_stats cs n ps = Inr (decode cs (unat n))"
      unfolding ps using v n by (rule entry_at_stats_valid)
    have mx: "max_size ps = compute_max_size cs"
      by (simp add: ps space_of_def m(1))
    have u: "unat (n mod max_size ps) = unat n mod total_size cs"
      by (simp add: unat_mod mx m(2))
    have "unat n mod total_size cs \<le> unat n"
      by (rule mod_less_eq_dividend)
    then have "unat (n mod max_size ps) \<le> 2 ^ 53"
      unfolding u using n by (rule le_trans)
    with v have "entry_at_stats cs (n mod max_size ps) ps = Inr (decode cs (unat (n mod max_size ps)))"
      unfolding ps by (rule entry_at_stats_valid)
    then show "entry_at_stats cs (n mod max_size ps) ps = entry_at_stats cs n ps"
      by (simp add: u e decode_periodic)
  }
qed

text \<open>
  The theorem at two domains of two symbols: index 7, which decodes as index 3, and
  index \<open>2 ^ 53 + 1\<close>, which is decoded.
\<close>

theorem entry_at_stats_periodic_witness:
  "valid_space TYPE(64) [[''Thin'', ''Thick''], [''Marinara'', ''BBQ'']] \<and>
   precompute TYPE(64) [[''Thin'', ''Thick''], [''Marinara'', ''BBQ'']] =
     Inr \<lparr>divs = [2, 1], mods = [2, 2], max_size = 4\<rparr> \<and>
   unat (7 :: u64) < 2 ^ 64 - 2 ^ 10 \<and> unat (7 :: u64) \<le> 2 ^ 53 \<and>
   (\<exists>c. entry_at_stats [[''Thin'', ''Thick''], [''Marinara'', ''BBQ'']] 7
          \<lparr>divs = [2, 1], mods = [2, 2], max_size = 4\<rparr> = Inr c) \<and>
   entry_at_stats [[''Thin'', ''Thick''], [''Marinara'', ''BBQ'']] (7 mod 4)
      \<lparr>divs = [2, 1], mods = [2, 2], max_size = 4\<rparr> =
   entry_at_stats [[''Thin'', ''Thick''], [''Marinara'', ''BBQ'']] 7
      \<lparr>divs = [2, 1], mods = [2, 2], max_size = 4\<rparr> \<and>
   unat (9007199254740993 :: u64) < 2 ^ 64 - 2 ^ 10 \<and>
   (\<exists>c. entry_at_stats [[''Thin'', ''Thick''], [''Marinara'', ''BBQ'']] 9007199254740993
          \<lparr>divs = [2, 1], mods = [2, 2], max_size = 4\<rparr> = Inr c \<and> length c = 2)"
proof -
  let ?cs = "[[''Thin'', ''Thick''], [''Marinara'', ''BBQ'']]"
  let ?ps = "\<lparr>divs = [2, 1], mods = [2, 2], max_size = 4 :: u64\<rparr>"
  have p: "precompute TYPE(64) ?cs = Inr ?ps"
    using precompute_valid [OF pizza_valid] by (simp add: pizza_space)
  have n: "unat (7 :: u64) < 2 ^ 64 - 2 ^ 10" "unat (7 :: u64) \<le> 2 ^ 53"
    and k: "unat (9007199254740993 :: u64) < 2 ^ 64 - 2 ^ 10"
    by simp_all
  from entry_at_stats_periodic [OF pizza_valid p, of 9007199254740993] k
  have "\<exists>c. entry_at_stats ?cs 9007199254740993 ?ps = Inr c \<and> length c = 2"
    by auto
  with entry_at_stats_periodic [OF pizza_valid p, of 7] pizza_valid p
  show ?thesis by auto
qed

text \<open>
  Claim C10 as stated, for every index, fails. For the single domain \<open>[a, b, c]\<close>,
  index \<open>2 ^ 53 + 1\<close> is a multiple of 3, yet it decodes to \<open>[c]\<close> and not to \<open>[a]\<close>
  as index 0 does: \<^verbatim>\<open>floor\<close> converts the quotient to \<^verbatim>\<open>double\<close>, which rounds it to
  \<open>2 ^ 53\<close>. For the indices \<open>2 ^ 64 - 2 ^ 10\<close> and \<open>2 ^ 64 - 1\<close> the \<^verbatim>\<open>double\<close> is
  \<open>2 ^ 64\<close>, which the cast back to \<^verbatim>\<open>unsigned long long\<close> cannot hold. And for 65
  domains of two symbols the first place value is stored as 0, so that decoding any
  index divides by zero.
\<close>

theorem entry_at_stats_periodic_counterexample:
  "precompute TYPE(64) [[''a'', ''b'', ''c'']] = Inr \<lparr>divs = [1], mods = [3], max_size = 3\<rparr> \<and>
   entry_at_stats [[''a'', ''b'', ''c'']] 9007199254740993 \<lparr>divs = [1], mods = [3], max_size = 3\<rparr>
     = Inr [''c''] \<and>
   entry_at_stats [[''a'', ''b'', ''c'']] (9007199254740993 mod 3) \<lparr>divs = [1], mods = [3], max_size = 3\<rparr>
     = Inr [''a''] \<and>
   entry_at_stats [[''a'', ''b'', ''c'']] 18446744073709550592 \<lparr>divs = [1], mods = [3], max_size = 3\<rparr>
     = Inl undefined_behavior \<and>
   entry_at_stats [[''a'', ''b'', ''c'']] 18446744073709551615 \<lparr>divs = [1], mods = [3], max_size = 3\<rparr>
     = Inl undefined_behavior \<and>
   entry_at_stats (replicate 65 [''a'', ''b'']) 0 (projr (precompute TYPE(64) (replicate 65 [''a'', ''b''])))
     = Inl undefined_behavior"
proof -
  have "floorlog 2 (9007199254740993::nat) = 54"
    by (simp add: compute_floorlog)
  then have d1: "double_of_ull 9007199254740993 = 9007199254740992"
    by (simp add: double_of_ull_def Let_def)
  have "floorlog 2 (18446744073709551615::nat) = 64"
    by (simp add: compute_floorlog)
  then have d2: "double_of_ull 18446744073709551615 = 18446744073709551616"
    by (simp add: double_of_ull_def Let_def)
  have "floorlog 2 (18446744073709550592::nat) = 64"
    by (simp add: compute_floorlog)
  then have d3: "double_of_ull 18446744073709550592 = 18446744073709551616"
    by (simp add: double_of_ull_def Let_def)
  have a: "entry_at_stats [[''a'', ''b'', ''c'']] 9007199254740993 \<lparr>divs = [1], mods = [3], max_size = 3\<rparr>
     = Inr [''c'']"
    by (simp add: entry_at_stats_def entry_at_loop.simps digit_of_def d1)
  have b: "entry_at_stats [[''a'', ''b'', ''c'']] (9007199254740993 mod 3) \<lparr>divs = [1], mods = [3], max_size = 3\<rparr>
     = Inr [''a'']"
    by (simp add: entry_at_stats_def entry_at_loop.simps digit_of_def double_of_ull_exact)
  have c: "entry_at_stats [[''a'', ''b'', ''c'']] 18446744073709551615 \<lparr>divs = [1], mods = [3], max_size = 3\<rparr>
     = Inl undefined_behavior"
    by (simp add: entry_at_stats_def entry_at_loop.simps digit_of_def d2)
  have c': "entry_at_stats [[''a'', ''b'', ''c'']] 18446744073709550592 \<lparr>divs = [1], mods = [3], max_size = 3\<rparr>
     = Inl undefined_behavior"
    by (simp add: entry_at_stats_def entry_at_loop.simps digit_of_def d3)
  have d: "entry_at_stats (replicate 65 [''a'', ''b'']) 0 (projr (precompute TYPE(64) (replicate 65 [''a'', ''b''])))
     = Inl undefined_behavior"
    using overflown_space_head
    by (simp add: entry_at_stats_def entry_at_loop.simps [of _ _ _ 0] digit_of_def)
  from a b c c' d space_abc show ?thesis by simp
qed

end
